theory Spec2Isabelle
  imports Main "HOL-Library.Word"
begin

unbundle bit_operations_syntax

section \<open>The term algebra read by the solver bridge\<close>

text \<open>
  \<^verbatim>\<open>z3solver.cc\<close> consumes the symbolic expression algebra of the repository
  (\<^verbatim>\<open>SymBool\<close>, \<^verbatim>\<open>SymBitVector\<close>, \<^verbatim>\<open>SymArray\<close>): one node class per
  \<^verbatim>\<open>visit\<close> overload of \<^verbatim>\<open>Z3Solver::ExprConverter\<close>. The fields are the ones the
  visitors read (\<^verbatim>\<open>a_\<close>, \<^verbatim>\<open>b_\<close>, \<^verbatim>\<open>bv_\<close>, \<^verbatim>\<open>size_\<close>, \<^verbatim>\<open>constant_\<close>,
  \<^verbatim>\<open>high_bit_\<close>, \<^verbatim>\<open>low_bit_\<close>, \<^verbatim>\<open>f_\<close>, \<^verbatim>\<open>args_\<close>, \<^verbatim>\<open>cond_\<close>, \<^verbatim>\<open>key_\<close>,
  \<^verbatim>\<open>value_\<close>, \<^verbatim>\<open>vars_\<close>, \<^verbatim>\<open>name_\<close>, \<^verbatim>\<open>key_size_\<close>, \<^verbatim>\<open>value_size_\<close>).
  Widths are \<^verbatim>\<open>uint16_t\<close> in the source and are kept as naturals; the constant of a
  bit-vector literal is a \<^verbatim>\<open>uint64_t\<close>.

  The algebra is a DAG of shared nodes in the source; the embedding is the tree
  unfolding of it. Node identity (and with it the memo table of the visitor base class,
  which is not part of \<^verbatim>\<open>z3solver.cc\<close>) is not modelled: it decides how often one and
  the same side constraint is emitted, never which ones.
\<close>

record symfunction =
  name :: string
  args :: "nat list"
  return_type :: nat

datatype symbv =
    SymBitVectorAnd symbv symbv
  | SymBitVectorConcat symbv symbv
  | SymBitVectorConstant nat "64 word"
  | SymBitVectorDiv symbv symbv
  | SymBitVectorExtract symbv nat nat
  | SymBitVectorFunction symfunction "symbv list"
  | SymBitVectorIte symbool symbv symbv
  | SymBitVectorMinus symbv symbv
  | SymBitVectorMod symbv symbv
  | SymBitVectorMult symbv symbv
  | SymBitVectorNot symbv
  | SymBitVectorOr symbv symbv
  | SymBitVectorPlus symbv symbv
  | SymBitVectorRotateLeft symbv symbv
  | SymBitVectorRotateRight symbv symbv
  | SymBitVectorShiftLeft symbv symbv
  | SymBitVectorShiftRight symbv symbv
  | SymBitVectorSignDiv symbv symbv
  | SymBitVectorSignExtend symbv nat
  | SymBitVectorSignMod symbv symbv
  | SymBitVectorSignShiftRight symbv symbv
  | SymBitVectorUMinus symbv
  | SymBitVectorVar string nat
  | SymBitVectorArrayLookup symarray symbv
  | SymBitVectorXor symbv symbv
and symbool =
    SymBoolArrayEq symarray symarray
  | SymBoolEq symbv symbv
  | SymBoolGe symbv symbv
  | SymBoolGt symbv symbv
  | SymBoolLe symbv symbv
  | SymBoolLt symbv symbv
  | SymBoolSignGe symbv symbv
  | SymBoolSignGt symbv symbv
  | SymBoolSignLe symbv symbv
  | SymBoolSignLt symbv symbv
  | SymBoolAnd symbool symbool
  | SymBoolFalse
  | SymBoolForAll symbool "(string \<times> nat) list"
  | SymBoolIff symbool symbool
  | SymBoolImplies symbool symbool
  | SymBoolNot symbool
  | SymBoolOr symbool symbool
  | SymBoolTrue
  | SymBoolVar string
  | SymBoolXor symbool symbool
and symarray =
    SymArrayStore symarray symbv symbv
  | SymArrayVar string nat nat

section \<open>Conjunction flattening\<close>

text \<open>
  \<^verbatim>\<open>it.type() == SymBool::AND\<close>: the test on the node kind.
\<close>

fun is_AND :: "symbool \<Rightarrow> bool" where
  "is_AND (SymBoolAnd a b) = True"
| "is_AND _ = False"

text \<open>The number of operands a nest of conjunctions has; the measure of the recursion.\<close>

fun and_weight :: "symbool \<Rightarrow> nat" where
  "and_weight (SymBoolAnd a b) = Suc (and_weight a + and_weight b)"
| "and_weight _ = Suc 0"

lemma and_weight_member: "x \<in> set xs \<Longrightarrow> and_weight x \<le> sum_list (map and_weight xs)"
  by (induction xs) auto

text \<open>
  \<^verbatim>\<open>split_constraints\<close>: the range-for over \<^verbatim>\<open>constraints\<close> is a left fold over the
  local vector \<^verbatim>\<open>split\<close>. The result of the recursive call on the two operands is
  inserted at \<^verbatim>\<open>split.begin()\<close>, every other element is pushed at the back.
\<close>

function split_constraints :: "symbool list \<Rightarrow> symbool list" where
  "split_constraints constraints =
     foldl (\<lambda>split it.
              case it of
                SymBoolAnd a b \<Rightarrow> split_constraints [a, b] @ split
              | _ \<Rightarrow> split @ [it])
           [] constraints"
  by pat_completeness auto
termination
proof (relation "measure (\<lambda>cs. sum_list (map and_weight cs))")
  show "wf (measure (\<lambda>cs. sum_list (map and_weight cs)))" by simp
next
  fix constraints :: "symbool list" and split it a b
  assume "it \<in> set constraints" "it = SymBoolAnd a b"
  then have "and_weight (SymBoolAnd a b) \<le> sum_list (map and_weight constraints)"
    using and_weight_member by blast
  then show "([a, b], constraints) \<in> measure (\<lambda>cs. sum_list (map and_weight cs))"
    by simp
qed

declare split_constraints.simps [simp del]

section \<open>Solver terms\<close>

text \<open>
  The second-party term language the visitors build. An application node carries the
  operator the source creates it with (\<^verbatim>\<open>Z3_mk_bvand\<close>, \<^verbatim>\<open>Z3_mk_extract\<close> with its two
  indices, \<^verbatim>\<open>operator&&\<close> and \<^verbatim>\<open>operator||\<close> of the C++ binding, ...). The three
  array operators below the line never come out of the lowering; they are the shapes
  \<^verbatim>\<open>get_model_array\<close> recognises in a model value (\<^verbatim>\<open>Z3_OP_STORE\<close> is the kind of a
  \<^verbatim>\<open>Z3_mk_store\<close> application).
\<close>

datatype z3sort = bool_sort | bv_sort nat | array_sort z3sort z3sort

datatype z3op =
    Z3_mk_bvand | Z3_mk_concat | Z3_mk_bvudiv | Z3_mk_extract nat nat | Z3_mk_ite
  | Z3_mk_bvsub | Z3_mk_bvurem | Z3_mk_bvmul | Z3_mk_bvnot | Z3_mk_bvor | Z3_mk_bvadd
  | Z3_mk_ext_rotate_left | Z3_mk_ext_rotate_right | Z3_mk_bvshl | Z3_mk_bvlshr
  | Z3_mk_bvsdiv | Z3_mk_sign_ext nat | Z3_mk_bvsrem | Z3_mk_bvashr | Z3_mk_bvneg
  | Z3_mk_select | Z3_mk_bvxor | Z3_mk_eq | Z3_mk_bvuge | Z3_mk_bvugt | Z3_mk_bvule
  | Z3_mk_bvult | Z3_mk_bvsge | Z3_mk_bvsgt | Z3_mk_bvsle | Z3_mk_bvslt
  | Z3_and | Z3_mk_false | Z3_mk_implies | Z3_mk_not | Z3_or | Z3_mk_true | Z3_mk_xor
  | Z3_mk_store
  | Z3_OP_CONST_ARRAY | Z3_OP_AS_ARRAY string | Z3_OP_ARRAY_MAP

datatype z3expr =
    Z3_app z3op "z3expr list"
  | Z3_bv_val "64 word" nat
  | Z3_mk_const string z3sort
  | Z3_function string "z3sort list" z3sort "z3expr list"
  | Z3_forall "z3expr list" z3expr

section \<open>The lowering engine\<close>

text \<open>
  What ends a call for good. \<^verbatim>\<open>assert\<close> is modelled as the source writes it (the
  assertion is compiled in): a failing assertion stops the process. What the C++
  leaves undefined (reading through a null \<^verbatim>\<open>model_\<close>, an element past the end of a
  vector or an output parameter the library did not write, \<^verbatim>\<open>delete\<close> on an object that
  was not made by \<^verbatim>\<open>new\<close>) and errors raised by the solver library outside any \<^verbatim>\<open>try\<close>
  are fatal as well.
\<close>

datatype fatal =
  Assertion_failed | Null_model | Out_of_range | Not_a_numeral | Z3_exception | Invalid_delete

text \<open>
  A visit returns the solver term and has two effects on the converter: it pushes side
  constraints to \<^verbatim>\<open>constraints_\<close>, and it may write \<^verbatim>\<open>error_\<close>. A result
  \<open>Inr (e, cs, err)\<close> carries the term, the constraints pushed during the visit in the
  order of the pushes, and the last text written to \<^verbatim>\<open>error_\<close> (empty when nothing was
  written). The language leaves open in which order the operands of a node are visited
  (the compiler the repository configures, g++, takes the last argument first); the
  embedding visits them left to right, and it visits a term as a tree: what the base
  class of the visitor does with a node it has met before is not in this file. So it
  is the set of the constraints pushed, not their order or their number, that the
  embedding has in common with every build.
\<close>

type_synonym 'a visited = "fatal + ('a \<times> symbool list \<times> string)"

text \<open>
  The operands of a node, visited in turn: the first fatal end is the end of the visit,
  otherwise the pushes are concatenated and the last write to \<^verbatim>\<open>error_\<close> stays.
\<close>

fun visit_args :: "z3expr visited list \<Rightarrow> z3expr list visited" where
  "visit_args [] = Inr ([], [], [])"
| "visit_args (r # rs) =
     (case r of
        Inl f \<Rightarrow> Inl f
      | Inr (x, cs, err) \<Rightarrow>
          (case visit_args rs of
             Inl f \<Rightarrow> Inl f
           | Inr (xs, ds, err') \<Rightarrow> Inr (x # xs, cs @ ds, if err' = [] then err else err')))"

text \<open>A node of the solver built over the lowered operands.\<close>

definition mk :: "(z3expr list \<Rightarrow> z3expr) \<Rightarrow> z3expr visited list \<Rightarrow> z3expr visited" where
  "mk node rs =
     (case visit_args rs of Inl f \<Rightarrow> Inl f | Inr (xs, cs, err) \<Rightarrow> Inr (node xs, cs, err))"

text \<open>\<^verbatim>\<open>constraints_.push_back(constraint)\<close> ahead of the visit of the operands.\<close>

definition push_back :: "symbool \<Rightarrow> 'a visited \<Rightarrow> 'a visited" where
  "push_back constraint r =
     (case r of Inl f \<Rightarrow> Inl f | Inr (x, cs, err) \<Rightarrow> Inr (x, constraint # cs, err))"

text \<open>
  Modelled from the spec: \<^verbatim>\<open>SymBitVector::constant\<close> belongs to the term algebra,
  whose sources are not part of the bridge. The spec has the derived constraint compare
  the divisor with the zero of the divisor's width: a literal node of that width.
\<close>

definition SymBitVector_constant :: "nat \<Rightarrow> 64 word \<Rightarrow> symbv" where
  "SymBitVector_constant width c = SymBitVectorConstant width c"

text \<open>
  Modelled from the spec: \<^verbatim>\<open>SymBitVector::operator!=\<close> belongs to the term algebra as
  well. The spec has the derived constraint assert that the divisor is not zero: the
  negation of an equality node.
\<close>

definition bv_neq :: "symbv \<Rightarrow> symbv \<Rightarrow> symbool" where
  "bv_neq a b = SymBoolNot (SymBoolEq a b)"

lemma size_take_member [termination_simp]:
  "x \<in> set (take n xs) \<Longrightarrow> size x < Suc (size_list size xs)"
  by (metis in_set_takeD less_Suc_eq_le size_list_estimation' order_refl)

text \<open>
  \<^verbatim>\<open>Z3Solver::ExprConverter::visit\<close>, one equation per overload. The parameter \<open>widthf\<close>
  reads the width field every bit-vector node carries (\<^verbatim>\<open>arg.width()\<close>,
  \<^verbatim>\<open>bv->bv_->width_\<close>); the algebra sets it, the bridge only reads it. The amount of a
  sign extension is the difference of two \<^verbatim>\<open>uint16_t\<close> passed as \<^verbatim>\<open>unsigned\<close>.
\<close>

fun visit_bv :: "(symbv \<Rightarrow> nat) \<Rightarrow> symbv \<Rightarrow> z3expr visited"
  and visit_bool :: "(symbv \<Rightarrow> nat) \<Rightarrow> symbool \<Rightarrow> z3expr visited"
  and visit_array :: "(symbv \<Rightarrow> nat) \<Rightarrow> symarray \<Rightarrow> z3expr visited" where
  "visit_bv widthf (SymBitVectorAnd a b) =
     mk (Z3_app Z3_mk_bvand) [visit_bv widthf a, visit_bv widthf b]"
| "visit_bv widthf (SymBitVectorConcat a b) =
     mk (Z3_app Z3_mk_concat) [visit_bv widthf a, visit_bv widthf b]"
| "visit_bv widthf (SymBitVectorConstant sz c) =
     Inr (Z3_bv_val c sz, [], [])"
| "visit_bv widthf (SymBitVectorDiv a b) =
     mk (Z3_app Z3_mk_bvudiv) [visit_bv widthf a, visit_bv widthf b]"
| "visit_bv widthf (SymBitVectorExtract bv high_bit low_bit) =
     mk (Z3_app (Z3_mk_extract high_bit low_bit)) [visit_bv widthf bv]"
| "visit_bv widthf (SymBitVectorFunction f argv) =
     (let sorts = map bv_sort (args f); ret_sort = bv_sort (return_type f) in
      if length sorts = 0 then Inl Assertion_failed
      else if length sorts \<le> 3 then
        (if length argv < length sorts then Inl Out_of_range
         else mk (Z3_function (name f) sorts ret_sort)
                 (map (visit_bv widthf) (take (length sorts) argv)))
      else Inl Assertion_failed)"
| "visit_bv widthf (SymBitVectorIte cond a b) =
     mk (Z3_app Z3_mk_ite) [visit_bool widthf cond, visit_bv widthf a, visit_bv widthf b]"
| "visit_bv widthf (SymBitVectorMinus a b) =
     mk (Z3_app Z3_mk_bvsub) [visit_bv widthf a, visit_bv widthf b]"
| "visit_bv widthf (SymBitVectorMod a b) =
     mk (Z3_app Z3_mk_bvurem) [visit_bv widthf a, visit_bv widthf b]"
| "visit_bv widthf (SymBitVectorMult a b) =
     mk (Z3_app Z3_mk_bvmul) [visit_bv widthf a, visit_bv widthf b]"
| "visit_bv widthf (SymBitVectorNot bv) =
     mk (Z3_app Z3_mk_bvnot) [visit_bv widthf bv]"
| "visit_bv widthf (SymBitVectorOr a b) =
     mk (Z3_app Z3_mk_bvor) [visit_bv widthf a, visit_bv widthf b]"
| "visit_bv widthf (SymBitVectorPlus a b) =
     mk (Z3_app Z3_mk_bvadd) [visit_bv widthf a, visit_bv widthf b]"
| "visit_bv widthf (SymBitVectorRotateLeft a b) =
     mk (Z3_app Z3_mk_ext_rotate_left) [visit_bv widthf a, visit_bv widthf b]"
| "visit_bv widthf (SymBitVectorRotateRight a b) =
     mk (Z3_app Z3_mk_ext_rotate_right) [visit_bv widthf a, visit_bv widthf b]"
| "visit_bv widthf (SymBitVectorShiftLeft a b) =
     mk (Z3_app Z3_mk_bvshl) [visit_bv widthf a, visit_bv widthf b]"
| "visit_bv widthf (SymBitVectorShiftRight a b) =
     mk (Z3_app Z3_mk_bvlshr) [visit_bv widthf a, visit_bv widthf b]"
| "visit_bv widthf (SymBitVectorSignDiv a b) =
     (let arg = b;
          width = widthf arg;
          zero = SymBitVector_constant width 0;
          constraint = bv_neq arg zero
      in push_back constraint
           (mk (Z3_app Z3_mk_bvsdiv) [visit_bv widthf a, visit_bv widthf b]))"
| "visit_bv widthf (SymBitVectorSignExtend bv sz) =
     (let child = widthf bv in
      mk (Z3_app (Z3_mk_sign_ext (nat ((int sz - int child) mod 2 ^ 32))))
         [visit_bv widthf bv])"
| "visit_bv widthf (SymBitVectorSignMod a b) =
     mk (Z3_app Z3_mk_bvsrem) [visit_bv widthf a, visit_bv widthf b]"
| "visit_bv widthf (SymBitVectorSignShiftRight a b) =
     mk (Z3_app Z3_mk_bvashr) [visit_bv widthf a, visit_bv widthf b]"
| "visit_bv widthf (SymBitVectorUMinus bv) =
     mk (Z3_app Z3_mk_bvneg) [visit_bv widthf bv]"
| "visit_bv widthf (SymBitVectorVar nm sz) =
     Inr (Z3_mk_const nm (bv_sort sz), [], [])"
| "visit_bv widthf (SymBitVectorArrayLookup a key) =
     mk (Z3_app Z3_mk_select) [visit_array widthf a, visit_bv widthf key]"
| "visit_bv widthf (SymBitVectorXor a b) =
     mk (Z3_app Z3_mk_bvxor) [visit_bv widthf a, visit_bv widthf b]"
| "visit_bool widthf (SymBoolArrayEq a b) =
     mk (Z3_app Z3_mk_eq) [visit_array widthf a, visit_array widthf b]"
| "visit_bool widthf (SymBoolEq a b) =
     mk (Z3_app Z3_mk_eq) [visit_bv widthf a, visit_bv widthf b]"
| "visit_bool widthf (SymBoolGe a b) =
     mk (Z3_app Z3_mk_bvuge) [visit_bv widthf a, visit_bv widthf b]"
| "visit_bool widthf (SymBoolGt a b) =
     mk (Z3_app Z3_mk_bvugt) [visit_bv widthf a, visit_bv widthf b]"
| "visit_bool widthf (SymBoolLe a b) =
     mk (Z3_app Z3_mk_bvule) [visit_bv widthf a, visit_bv widthf b]"
| "visit_bool widthf (SymBoolLt a b) =
     mk (Z3_app Z3_mk_bvult) [visit_bv widthf a, visit_bv widthf b]"
| "visit_bool widthf (SymBoolSignGe a b) =
     mk (Z3_app Z3_mk_bvsge) [visit_bv widthf a, visit_bv widthf b]"
| "visit_bool widthf (SymBoolSignGt a b) =
     mk (Z3_app Z3_mk_bvsgt) [visit_bv widthf a, visit_bv widthf b]"
| "visit_bool widthf (SymBoolSignLe a b) =
     mk (Z3_app Z3_mk_bvsle) [visit_bv widthf a, visit_bv widthf b]"
| "visit_bool widthf (SymBoolSignLt a b) =
     mk (Z3_app Z3_mk_bvslt) [visit_bv widthf a, visit_bv widthf b]"
| "visit_bool widthf (SymBoolAnd a b) =
     mk (Z3_app Z3_and) [visit_bool widthf a, visit_bool widthf b]"
| "visit_bool widthf SymBoolFalse = Inr (Z3_app Z3_mk_false [], [], [])"
| "visit_bool widthf (SymBoolForAll a vars) =
     (let exprs = map (\<lambda>(nm, sz). Z3_mk_const nm (bv_sort sz)) vars in
      case visit_bool widthf a of
        Inl f \<Rightarrow> Inl f
      | Inr (inside, cs, err) \<Rightarrow>
          if length vars = 1 then Inr (Z3_forall [exprs ! 0] inside, cs, err)
          else if length vars = 2 then Inr (Z3_forall [exprs ! 0, exprs ! 1] inside, cs, err)
          else if length vars = 3 then
            Inr (Z3_forall [exprs ! 0, exprs ! 1, exprs ! 2] inside, cs, err)
          else Inl Assertion_failed)"
| "visit_bool widthf (SymBoolIff a b) =
     mk (Z3_app Z3_mk_eq) [visit_bool widthf a, visit_bool widthf b]"
| "visit_bool widthf (SymBoolImplies a b) =
     mk (Z3_app Z3_mk_implies) [visit_bool widthf a, visit_bool widthf b]"
| "visit_bool widthf (SymBoolNot b) =
     mk (Z3_app Z3_mk_not) [visit_bool widthf b]"
| "visit_bool widthf (SymBoolOr a b) =
     mk (Z3_app Z3_or) [visit_bool widthf a, visit_bool widthf b]"
| "visit_bool widthf SymBoolTrue = Inr (Z3_app Z3_mk_true [], [], [])"
| "visit_bool widthf (SymBoolVar nm) = Inr (Z3_mk_const nm bool_sort, [], [])"
| "visit_bool widthf (SymBoolXor a b) =
     mk (Z3_app Z3_mk_xor) [visit_bool widthf a, visit_bool widthf b]"
| "visit_array widthf (SymArrayStore a key val) =
     mk (Z3_app Z3_mk_store) [visit_array widthf a, visit_bv widthf key, visit_bv widthf val]"
| "visit_array widthf (SymArrayVar nm key_size value_size) =
     Inr (Z3_mk_const nm (array_sort (bv_sort key_size) (bv_sort value_size)), [], [])"

section \<open>The signed divisions a visit reaches\<close>

text \<open>
  The divisors of the \<^verbatim>\<open>SymBitVectorSignDiv\<close> nodes in a term, listed in the order in
  which the visitor comes to them: a node before its operands, operands left to right.
  The visitor of an uninterpreted function goes into as many arguments as the function
  declares, and so does the list.
\<close>

fun sdiv_divisors_bv :: "symbv \<Rightarrow> symbv list"
  and sdiv_divisors_bool :: "symbool \<Rightarrow> symbv list"
  and sdiv_divisors_array :: "symarray \<Rightarrow> symbv list" where
  "sdiv_divisors_bv (SymBitVectorAnd a b) = sdiv_divisors_bv a @ sdiv_divisors_bv b"
| "sdiv_divisors_bv (SymBitVectorConcat a b) = sdiv_divisors_bv a @ sdiv_divisors_bv b"
| "sdiv_divisors_bv (SymBitVectorConstant sz c) = []"
| "sdiv_divisors_bv (SymBitVectorDiv a b) = sdiv_divisors_bv a @ sdiv_divisors_bv b"
| "sdiv_divisors_bv (SymBitVectorExtract bv high_bit low_bit) = sdiv_divisors_bv bv"
| "sdiv_divisors_bv (SymBitVectorFunction f argv) =
     concat (map sdiv_divisors_bv (take (length (args f)) argv))"
| "sdiv_divisors_bv (SymBitVectorIte cond a b) =
     sdiv_divisors_bool cond @ sdiv_divisors_bv a @ sdiv_divisors_bv b"
| "sdiv_divisors_bv (SymBitVectorMinus a b) = sdiv_divisors_bv a @ sdiv_divisors_bv b"
| "sdiv_divisors_bv (SymBitVectorMod a b) = sdiv_divisors_bv a @ sdiv_divisors_bv b"
| "sdiv_divisors_bv (SymBitVectorMult a b) = sdiv_divisors_bv a @ sdiv_divisors_bv b"
| "sdiv_divisors_bv (SymBitVectorNot bv) = sdiv_divisors_bv bv"
| "sdiv_divisors_bv (SymBitVectorOr a b) = sdiv_divisors_bv a @ sdiv_divisors_bv b"
| "sdiv_divisors_bv (SymBitVectorPlus a b) = sdiv_divisors_bv a @ sdiv_divisors_bv b"
| "sdiv_divisors_bv (SymBitVectorRotateLeft a b) = sdiv_divisors_bv a @ sdiv_divisors_bv b"
| "sdiv_divisors_bv (SymBitVectorRotateRight a b) = sdiv_divisors_bv a @ sdiv_divisors_bv b"
| "sdiv_divisors_bv (SymBitVectorShiftLeft a b) = sdiv_divisors_bv a @ sdiv_divisors_bv b"
| "sdiv_divisors_bv (SymBitVectorShiftRight a b) = sdiv_divisors_bv a @ sdiv_divisors_bv b"
| "sdiv_divisors_bv (SymBitVectorSignDiv a b) = b # sdiv_divisors_bv a @ sdiv_divisors_bv b"
| "sdiv_divisors_bv (SymBitVectorSignExtend bv sz) = sdiv_divisors_bv bv"
| "sdiv_divisors_bv (SymBitVectorSignMod a b) = sdiv_divisors_bv a @ sdiv_divisors_bv b"
| "sdiv_divisors_bv (SymBitVectorSignShiftRight a b) = sdiv_divisors_bv a @ sdiv_divisors_bv b"
| "sdiv_divisors_bv (SymBitVectorUMinus bv) = sdiv_divisors_bv bv"
| "sdiv_divisors_bv (SymBitVectorVar nm sz) = []"
| "sdiv_divisors_bv (SymBitVectorArrayLookup a key) = sdiv_divisors_array a @ sdiv_divisors_bv key"
| "sdiv_divisors_bv (SymBitVectorXor a b) = sdiv_divisors_bv a @ sdiv_divisors_bv b"
| "sdiv_divisors_bool (SymBoolArrayEq a b) = sdiv_divisors_array a @ sdiv_divisors_array b"
| "sdiv_divisors_bool (SymBoolEq a b) = sdiv_divisors_bv a @ sdiv_divisors_bv b"
| "sdiv_divisors_bool (SymBoolGe a b) = sdiv_divisors_bv a @ sdiv_divisors_bv b"
| "sdiv_divisors_bool (SymBoolGt a b) = sdiv_divisors_bv a @ sdiv_divisors_bv b"
| "sdiv_divisors_bool (SymBoolLe a b) = sdiv_divisors_bv a @ sdiv_divisors_bv b"
| "sdiv_divisors_bool (SymBoolLt a b) = sdiv_divisors_bv a @ sdiv_divisors_bv b"
| "sdiv_divisors_bool (SymBoolSignGe a b) = sdiv_divisors_bv a @ sdiv_divisors_bv b"
| "sdiv_divisors_bool (SymBoolSignGt a b) = sdiv_divisors_bv a @ sdiv_divisors_bv b"
| "sdiv_divisors_bool (SymBoolSignLe a b) = sdiv_divisors_bv a @ sdiv_divisors_bv b"
| "sdiv_divisors_bool (SymBoolSignLt a b) = sdiv_divisors_bv a @ sdiv_divisors_bv b"
| "sdiv_divisors_bool (SymBoolAnd a b) = sdiv_divisors_bool a @ sdiv_divisors_bool b"
| "sdiv_divisors_bool SymBoolFalse = []"
| "sdiv_divisors_bool (SymBoolForAll a vars) = sdiv_divisors_bool a"
| "sdiv_divisors_bool (SymBoolIff a b) = sdiv_divisors_bool a @ sdiv_divisors_bool b"
| "sdiv_divisors_bool (SymBoolImplies a b) = sdiv_divisors_bool a @ sdiv_divisors_bool b"
| "sdiv_divisors_bool (SymBoolNot b) = sdiv_divisors_bool b"
| "sdiv_divisors_bool (SymBoolOr a b) = sdiv_divisors_bool a @ sdiv_divisors_bool b"
| "sdiv_divisors_bool SymBoolTrue = []"
| "sdiv_divisors_bool (SymBoolVar nm) = []"
| "sdiv_divisors_bool (SymBoolXor a b) = sdiv_divisors_bool a @ sdiv_divisors_bool b"
| "sdiv_divisors_array (SymArrayStore a key val) =
     sdiv_divisors_array a @ sdiv_divisors_bv key @ sdiv_divisors_bv val"
| "sdiv_divisors_array (SymArrayVar nm key_size value_size) = []"

text \<open>The side constraint of one divisor, as \<^verbatim>\<open>visit(SymBitVectorSignDiv)\<close> builds it.\<close>

definition divisor_guard :: "(symbv \<Rightarrow> nat) \<Rightarrow> symbv \<Rightarrow> symbool" where
  "divisor_guard widthf arg = bv_neq arg (SymBitVector_constant (widthf arg) 0)"

subsection \<open>What a visit pushes\<close>

text \<open>The two effects of a visit that returned, read off its result.\<close>

definition pushed :: "'a visited \<Rightarrow> symbool list" where
  "pushed r = (case r of Inl f \<Rightarrow> [] | Inr (x, cs, err) \<Rightarrow> cs)"

definition written :: "'a visited \<Rightarrow> string" where
  "written r = (case r of Inl f \<Rightarrow> [] | Inr (x, cs, err) \<Rightarrow> err)"

lemma pushed_Inr [simp]: "pushed (Inr (x, cs, err)) = cs"
  by (simp add: pushed_def)

lemma written_Inr [simp]: "written (Inr (x, cs, err)) = err"
  by (simp add: written_def)

lemma visit_args_isl: "isl (visit_args rs) = (\<exists>r\<in>set rs. isl r)"
  by (induction rs) (auto split: sum.splits)

lemma visit_args_InlD: "visit_args rs = Inl f \<Longrightarrow> \<exists>r\<in>set rs. isl r"
  using visit_args_isl [of rs] by simp

lemma visit_args_pushed:
  "\<forall>r\<in>set rs. \<not> isl r \<Longrightarrow> pushed (visit_args rs) = concat (map pushed rs)"
  by (induction rs) (auto split: sum.splits simp: pushed_def dest: visit_args_InlD)

lemma visit_args_written:
  "\<forall>r\<in>set rs. \<not> isl r \<and> written r = [] \<Longrightarrow> written (visit_args rs) = []"
  by (induction rs) (auto split: sum.splits simp: written_def dest: visit_args_InlD)

lemma mk_isl [simp]: "isl (mk node rs) = (\<exists>r\<in>set rs. isl r)"
  using visit_args_isl [of rs] by (auto simp: mk_def split: sum.splits)

lemma mk_pushed:
  "\<forall>r\<in>set rs. \<not> isl r \<Longrightarrow> pushed (mk node rs) = concat (map pushed rs)"
  using visit_args_pushed [of rs] visit_args_isl [of rs]
  by (auto simp: mk_def pushed_def split: sum.splits)

lemma mk_written:
  "\<forall>r\<in>set rs. \<not> isl r \<and> written r = [] \<Longrightarrow> written (mk node rs) = []"
  using visit_args_written [of rs] visit_args_isl [of rs]
  by (auto simp: mk_def written_def split: sum.splits)

lemma push_back_isl [simp]: "isl (push_back c r) = isl r"
  by (auto simp: push_back_def split: sum.splits)

lemma push_back_pushed: "\<not> isl r \<Longrightarrow> pushed (push_back c r) = c # pushed r"
  by (auto simp: push_back_def pushed_def split: sum.splits)

lemma push_back_written [simp]: "written (push_back c r) = written r"
  by (auto simp: push_back_def written_def split: sum.splits)

lemma visit_effects:
  "\<not> isl (visit_bv w t) \<longrightarrow>
     pushed (visit_bv w t) = map (divisor_guard w) (sdiv_divisors_bv t) \<and>
     written (visit_bv w t) = []"
  "\<not> isl (visit_bool w c) \<longrightarrow>
     pushed (visit_bool w c) = map (divisor_guard w) (sdiv_divisors_bool c) \<and>
     written (visit_bool w c) = []"
  "\<not> isl (visit_array w a) \<longrightarrow>
     pushed (visit_array w a) = map (divisor_guard w) (sdiv_divisors_array a) \<and>
     written (visit_array w a) = []"
proof (induction w t and w c and w a rule: visit_bv_visit_bool_visit_array.induct)
  case (6 widthf f argv)
  show ?case
  proof
    assume ok: "\<not> isl (visit_bv widthf (SymBitVectorFunction f argv))"
    let ?n = "length (args f)"
    from ok have n: "?n \<noteq> 0" "?n \<le> 3" "\<not> length argv < ?n"
      by (auto simp: Let_def split: if_splits)
    from ok n have all: "\<forall>x\<in>set (take ?n argv). \<not> isl (visit_bv widthf x)"
      by (auto simp: Let_def)
    have ih: "pushed (visit_bv widthf x) = map (divisor_guard widthf) (sdiv_divisors_bv x) \<and>
          written (visit_bv widthf x) = []" if "x \<in> set (take ?n argv)" for x
      using "6.IH" [OF refl refl, of x] n all that by simp
    have "pushed (visit_bv widthf (SymBitVectorFunction f argv)) =
          concat (map pushed (map (visit_bv widthf) (take ?n argv)))"
      using n all by (simp add: Let_def mk_pushed)
    also have "\<dots> = map (divisor_guard widthf) (sdiv_divisors_bv (SymBitVectorFunction f argv))"
      using ih by (simp add: map_concat comp_def cong: map_cong)
    finally have p: "pushed (visit_bv widthf (SymBitVectorFunction f argv)) =
          map (divisor_guard widthf) (sdiv_divisors_bv (SymBitVectorFunction f argv))" .
    have "written (visit_bv widthf (SymBitVectorFunction f argv)) = []"
      using n all ih by (simp add: Let_def mk_written)
    with p show "pushed (visit_bv widthf (SymBitVectorFunction f argv)) =
          map (divisor_guard widthf) (sdiv_divisors_bv (SymBitVectorFunction f argv)) \<and>
          written (visit_bv widthf (SymBitVectorFunction f argv)) = []" by simp
  qed
next
  case (38 widthf a vars)
  then show ?case
    by (auto simp: Let_def pushed_def written_def split: sum.splits if_splits)
qed (simp_all add: mk_pushed mk_written push_back_pushed divisor_guard_def Let_def)

lemma length_le_concat_map:
  "x \<in> set xs \<Longrightarrow> length (f x) \<le> length (concat (map f xs))"
  by (induction xs) auto

lemma divisors_smaller:
  "b \<in> set (sdiv_divisors_bv t) \<longrightarrow> length (sdiv_divisors_bv b) < length (sdiv_divisors_bv t)"
  "b \<in> set (sdiv_divisors_bool c) \<longrightarrow> length (sdiv_divisors_bv b) < length (sdiv_divisors_bool c)"
  "b \<in> set (sdiv_divisors_array a) \<longrightarrow> length (sdiv_divisors_bv b) < length (sdiv_divisors_array a)"
proof (induction t and c and a rule: sdiv_divisors_bv_sdiv_divisors_bool_sdiv_divisors_array.induct)
  case (6 f argv)
  show ?case
  proof
    assume "b \<in> set (sdiv_divisors_bv (SymBitVectorFunction f argv))"
    then obtain x where x: "x \<in> set (take (length (args f)) argv)" "b \<in> set (sdiv_divisors_bv x)"
      by auto
    then have "length (sdiv_divisors_bv b) < length (sdiv_divisors_bv x)"
      using "6.IH" by blast
    also have "\<dots> \<le> length (concat (map sdiv_divisors_bv (take (length (args f)) argv)))"
      using x(1) by (rule length_le_concat_map)
    finally show "length (sdiv_divisors_bv b) < length (sdiv_divisors_bv (SymBitVectorFunction f argv))"
      by simp
  qed
qed auto

lemma sdiv_divisors_guard [simp]:
  "sdiv_divisors_bool (divisor_guard w b) = sdiv_divisors_bv b"
  by (simp add: divisor_guard_def bv_neq_def SymBitVector_constant_def)

text \<open>
  The measure of the worklist in \<^verbatim>\<open>is_sat\<close>: one more than the largest number of
  signed divisions a constraint of the batch holds, and 0 for the empty batch.
\<close>

definition batch_rank :: "symbool list \<Rightarrow> nat" where
  "batch_rank cs = foldr (\<lambda>c m. max (Suc (length (sdiv_divisors_bool c))) m) cs 0"

lemma batch_rank_member: "c \<in> set cs \<Longrightarrow> length (sdiv_divisors_bool c) < batch_rank cs"
  by (induction cs) (auto simp: batch_rank_def)

lemma batch_rank_bound:
  "\<forall>c\<in>set cs. length (sdiv_divisors_bool c) < k \<Longrightarrow> 0 < k \<Longrightarrow> batch_rank cs \<le> k"
  by (induction cs) (auto simp: batch_rank_def)

section \<open>The solver object and its collaborators\<close>

text \<open>
  What the decoders read from a model of the solver: the value of a bit-vector constant
  of a given name and width (with model completion), the value expression of an array
  constant of a given name and key and value widths, and the interpretation of a
  function symbol, a list of entries (arguments, value) with an \<^verbatim>\<open>else\<close> value.
\<close>

record z3func_interp =
  entries :: "(z3expr list \<times> z3expr) list"
  else_value :: z3expr

record z3model =
  bv_value :: "string \<Rightarrow> nat \<Rightarrow> nat"
  array_value :: "string \<Rightarrow> nat \<Rightarrow> nat \<Rightarrow> z3expr"
  get_func_interp :: "string \<Rightarrow> z3func_interp"

text \<open>
  \<^verbatim>\<open>z3::check_result\<close>. The enumeration has three values; \<open>out_of_enum\<close> stands for any
  other value of the underlying type, which is what the \<^verbatim>\<open>default\<close> branch of the
  \<^verbatim>\<open>switch\<close> is written for.
\<close>

datatype check_result = unsat | sat | unknown | out_of_enum

text \<open>
  The members of \<^verbatim>\<open>Z3Solver\<close> that \<^verbatim>\<open>is_sat\<close> and the decoders touch: \<^verbatim>\<open>error_\<close>,
  \<^verbatim>\<open>model_\<close> (null or a model), the atomic flag \<^verbatim>\<open>stop_now_\<close> and the assertions held
  by \<^verbatim>\<open>solver_\<close>, in the order of the \<^verbatim>\<open>add\<close> calls. The field \<open>polls\<close> is not a member
  of the class: it counts the samples of the flag taken since the last reset and is
  the clock against which another thread's writes to the flag are scheduled.
\<close>

record z3solver =
  error :: string
  model :: "z3model option"
  stop_now :: bool
  solver :: "z3expr list"
  polls :: nat

text \<open>
  What \<^verbatim>\<open>z3solver.cc\<close> calls but does not define, taken as parameters:
  \<^item> \<open>get_axioms\<close>: \<^verbatim>\<open>SymAxiomVisitor\<close> run over the constraints;
  \<^item> \<open>tc\<close>, \<open>tc_error\<close>: the result of \<^verbatim>\<open>SymTypecheckVisitor\<close> on a constraint (1 for a
    well-typed boolean) and the error text it holds afterwards, if any;
  \<^item> \<open>print\<close>: \<^verbatim>\<open>operator<<\<close> on a constraint;
  \<^item> \<open>width\<close>: the width field of a bit-vector node;
  \<^item> \<open>check\<close>, \<open>get_model\<close>: the decision procedure on the asserted terms; \<open>Inl what\<close> is
    an exception with its message;
  \<^item> \<open>interrupt\<close>: whether another thread has stored \<^verbatim>\<open>true\<close> into the flag between the
    previous sample and sample number \<open>k\<close> of the running call;
  \<^item> \<open>expr_to_uint8\<close>: the conversion of a solver expression to \<^verbatim>\<open>uint8_t\<close> that the
    C++ binding offers.
  Errors the solver library raises while an ill-sorted term is built are not modelled:
  every constraint passes the typechecker before it is lowered.
\<close>

record collaborators =
  get_axioms :: "symbool list \<Rightarrow> symbool list"
  tc :: "symbool \<Rightarrow> nat"
  tc_error :: "symbool \<Rightarrow> string option"
  print :: "symbool \<Rightarrow> string"
  width :: "symbv \<Rightarrow> nat"
  check :: "z3expr list \<Rightarrow> string + check_result"
  get_model :: "z3expr list \<Rightarrow> string + z3model"
  interrupt :: "nat \<Rightarrow> bool"
  expr_to_uint8 :: "z3expr \<Rightarrow> 8 word"

definition endl :: string where
  "endl = [CHR 0x0A]"

text \<open>
  The lambda \<^verbatim>\<open>check_abort\<close>: one sample of the flag. A write of another thread that
  is due lands first; the flag stays up once it is up.
\<close>

definition check_abort :: "collaborators \<Rightarrow> z3solver \<Rightarrow> bool \<times> z3solver" where
  "check_abort env s =
     (let s1 = s\<lparr>stop_now := stop_now s \<or> interrupt env (polls s), polls := Suc (polls s)\<rparr>
      in if stop_now s1 then (True, s1\<lparr>error := ''External interrupt.''\<rparr>) else (False, s1))"

text \<open>The text \<^verbatim>\<open>is_sat\<close> composes when the typechecker rejects a constraint.\<close>

definition typecheck_message :: "collaborators \<Rightarrow> symbool \<Rightarrow> string" where
  "typecheck_message env it =
     ''Typechecking failed for constraint: '' @ print env it @ endl @
     (case tc_error env it of
        Some e \<Rightarrow> ''error: '' @ e @ endl
      | None \<Rightarrow> ''(no typechecking error message given)'' @ endl)"

text \<open>
  The range-for over \<^verbatim>\<open>*current\<close>, with one converter \<^verbatim>\<open>ec\<close> whose side constraints
  collect in \<^verbatim>\<open>new_constraints\<close>. \<open>Inr (None, s)\<close> is a \<^verbatim>\<open>return false\<close> from inside the
  loop, \<open>Inr (Some new_constraints, s)\<close> the end of the batch.
\<close>

fun lower_batch ::
  "collaborators \<Rightarrow> symbool list \<Rightarrow> symbool list \<Rightarrow> z3solver \<Rightarrow>
     fatal + (symbool list option \<times> z3solver)" where
  "lower_batch env [] new_constraints s = Inr (Some new_constraints, s)"
| "lower_batch env (it # rest) new_constraints s =
     (case check_abort env s of
        (True, s1) \<Rightarrow> Inr (None, s1)
      | (False, s1) \<Rightarrow>
          if tc env it \<noteq> 1 then Inr (None, s1\<lparr>error := typecheck_message env it\<rparr>)
          else
            (case visit_bool (width env) it of
               Inl f \<Rightarrow> Inl f
             | Inr (constraint, cs, ec_error) \<Rightarrow>
                 if ec_error \<noteq> [] then Inr (None, s1\<lparr>error := ec_error\<rparr>)
                 else lower_batch env rest (new_constraints @ cs)
                        (s1\<lparr>solver := solver s1 @ [constraint]\<rparr>)))"

lemma lower_batch_new:
  "lower_batch env current new s = Inr (Some new', s') \<Longrightarrow>
   new' = new @ concat (map (\<lambda>c. map (divisor_guard (width env)) (sdiv_divisors_bool c)) current)"
proof (induction current arbitrary: new s)
  case Nil
  then show ?case by simp
next
  case (Cons it rest)
  from Cons.prems obtain s1 constraint cs where
    v: "visit_bool (width env) it = Inr (constraint, cs, [])" and
    r: "lower_batch env rest (new @ cs) (s1\<lparr>solver := solver s1 @ [constraint]\<rparr>) = Inr (Some new', s')"
    by (auto split: prod.splits bool.splits if_splits sum.splits)
  from v have "cs = map (divisor_guard (width env)) (sdiv_divisors_bool it)"
    using visit_effects(2) [of "width env" it] by simp
  with Cons.IH [OF r] show ?case by simp
qed

lemma lower_batch_rank:
  assumes "lower_batch env current [] s = Inr (Some new', s')" "current \<noteq> []"
  shows "batch_rank new' < batch_rank current"
proof -
  from assms(2) obtain c0 where "c0 \<in> set current" by (cases current) auto
  then have pos: "0 < batch_rank current" using batch_rank_member by fastforce
  have new': "new' = concat (map (\<lambda>c. map (divisor_guard (width env)) (sdiv_divisors_bool c)) current)"
    using lower_batch_new [OF assms(1)] by simp
  have "length (sdiv_divisors_bool d) < batch_rank current - 1" if "d \<in> set new'" for d
  proof -
    from that new' obtain c b where cb: "c \<in> set current" "b \<in> set (sdiv_divisors_bool c)"
      "d = divisor_guard (width env) b" by auto
    have "length (sdiv_divisors_bv b) < length (sdiv_divisors_bool c)"
      using divisors_smaller(2) cb(2) by blast
    moreover have "length (sdiv_divisors_bool c) < batch_rank current"
      using cb(1) by (rule batch_rank_member)
    ultimately show ?thesis by (simp add: cb(3))
  qed
  then show ?thesis
  proof (cases "new' = []")
    case True
    with pos show ?thesis by (simp add: batch_rank_def)
  next
    case False
    then obtain d where d: "d \<in> set new'" by (cases new') auto
    have "0 < batch_rank current - 1"
      using \<open>\<And>d. d \<in> set new' \<Longrightarrow> length (sdiv_divisors_bool d) < batch_rank current - 1\<close> [OF d] by simp
    then have "batch_rank new' \<le> batch_rank current - 1"
      using \<open>\<And>d. d \<in> set new' \<Longrightarrow> length (sdiv_divisors_bool d) < batch_rank current - 1\<close>
      by (intro batch_rank_bound) auto
    with pos show ?thesis by simp
  qed
qed

text \<open>
  \<^verbatim>\<open>while (current->size() != 0)\<close>: the worklist. \<open>Inr (False, s)\<close> is a \<^verbatim>\<open>return false\<close>
  of \<^verbatim>\<open>is_sat\<close>, \<open>Inr (True, s)\<close> the exit of the loop. It terminates because the side
  constraints of a batch hold fewer signed divisions than the constraints they come
  from.
\<close>

function lowering_loop ::
  "collaborators \<Rightarrow> symbool list \<Rightarrow> z3solver \<Rightarrow> fatal + (bool \<times> z3solver)" where
  "lowering_loop env current s =
     (if current = [] then Inr (True, s)
      else
        (case check_abort env s of
           (True, s1) \<Rightarrow> Inr (False, s1)
         | (False, s1) \<Rightarrow>
             (case lower_batch env current [] s1 of
                Inl f \<Rightarrow> Inl f
              | Inr (None, s2) \<Rightarrow> Inr (False, s2)
              | Inr (Some new_constraints, s2) \<Rightarrow> lowering_loop env new_constraints s2)))"
  by pat_completeness auto
termination
  by (relation "measure (\<lambda>(env, current, s). batch_rank current)")
     (auto dest: lower_batch_rank)

section \<open>The query executor\<close>

text \<open>
  \<^verbatim>\<open>catch (std::exception e)\<close> takes the exception by value: \<open>e\<close> is a copy of the base
  part of what was thrown, and \<^verbatim>\<open>e.what()\<close> is the text of a plain \<^verbatim>\<open>std::exception\<close>
  (as the standard library of the build gives it), not the message of the solver.
\<close>

definition std_exception_what :: string where
  "std_exception_what = ''std::exception''"

text \<open>
  The \<^verbatim>\<open>try\<close> block of \<^verbatim>\<open>is_sat\<close>: the last sample of the flag, the call of the
  decision procedure and the \<^verbatim>\<open>switch\<close> on its result. An exception of the library
  (\<open>Inl thrown\<close> from \<^verbatim>\<open>check\<close> or \<^verbatim>\<open>get_model\<close>) is caught; the error text is
  built from the sliced copy.
\<close>

definition run_solver :: "collaborators \<Rightarrow> z3solver \<Rightarrow> fatal + (bool \<times> z3solver)" where
  "run_solver env s =
     (case check_abort env s of
        (True, s1) \<Rightarrow> Inr (False, s1)
      | (False, s1) \<Rightarrow>
          (case check env (solver s1) of
             Inl thrown \<Rightarrow>
               Inr (False, s1\<lparr>error := ''Z3 encountered error: '' @ std_exception_what @ endl\<rparr>)
           | Inr unsat \<Rightarrow> Inr (False, s1)
           | Inr sat \<Rightarrow>
               (case get_model env (solver s1) of
                  Inl thrown \<Rightarrow>
                    Inr (False,
                         s1\<lparr>error := ''Z3 encountered error: '' @ std_exception_what @ endl\<rparr>)
                | Inr m \<Rightarrow> Inr (True, s1\<lparr>model := Some m\<rparr>))
           | Inr unknown \<Rightarrow> Inr (False, s1\<lparr>error := ''z3 gave up.''\<rparr>)
           | Inr out_of_enum \<Rightarrow> Inl Assertion_failed))"

text \<open>
  \<^verbatim>\<open>/* Reset state. */\<close> The four assignments at the head of \<^verbatim>\<open>is_sat\<close>; the sample
  counter of the call starts at 0.
\<close>

definition reset_state :: "z3solver \<Rightarrow> z3solver" where
  "reset_state s = s\<lparr>error := [], model := None, stop_now := False, solver := [], polls := 0\<rparr>"

text \<open>
  \<^verbatim>\<open>Z3Solver::is_sat\<close>. The constraints come first, the axioms of the axiom visitor
  after them; the flattened list is the first batch of the worklist. \<^verbatim>\<open>current\<close> starts
  as the address of the local vector \<^verbatim>\<open>split\<close> and points to a vector made by \<^verbatim>\<open>new\<close>
  from the end of the first round on. When the flattened list is empty the loop body
  never runs and the \<^verbatim>\<open>delete current\<close> after the loop is applied to the local vector:
  the call ends there, before the decision procedure.
\<close>

definition is_sat ::
  "collaborators \<Rightarrow> symbool list \<Rightarrow> z3solver \<Rightarrow> fatal + (bool \<times> z3solver)" where
  "is_sat env constraints s0 =
     (let s = reset_state s0;
          all_constraints = constraints @ get_axioms env constraints;
          split = split_constraints all_constraints
      in if split = [] then Inl Invalid_delete
         else
           (case lowering_loop env split s of
              Inl f \<Rightarrow> Inl f
            | Inr (False, s1) \<Rightarrow> Inr (False, s1)
            | Inr (True, s1) \<Rightarrow> run_solver env s1))"

section \<open>The model decoder\<close>

text \<open>
  Modelled from the spec: \<^verbatim>\<open>cpputil::BitVector\<close> is not among the sources of the bridge.
  The spec speaks of a fixed-width bit vector that is filled byte position by byte
  position; the model is the number of bits and the bytes, lowest first. Writing a
  byte past the end is undefined in the source and fatal here.
\<close>

record bitvector =
  num_bits :: nat
  fixed_bytes :: "8 word list"

text \<open>
  Modelled from the spec: the constructor \<^verbatim>\<open>cpputil::BitVector(n)\<close>, missing likewise; a
  vector of \<open>n\<close> bits over zeroed storage.
\<close>

definition BitVector :: "nat \<Rightarrow> bitvector" where
  "BitVector n = \<lparr>num_bits = n, fixed_bytes = replicate ((n + 7) div 8) 0\<rparr>"

text \<open>
  Modelled from the spec: the assignment through \<^verbatim>\<open>get_fixed_byte(j)\<close>, missing
  likewise; byte position \<open>j\<close> of the storage is overwritten.
\<close>

definition set_fixed_byte :: "nat \<Rightarrow> 8 word \<Rightarrow> bitvector \<Rightarrow> fatal + bitvector" where
  "set_fixed_byte j b r =
     (if j < length (fixed_bytes r) then Inr (r\<lparr>fixed_bytes := (fixed_bytes r)[j := b]\<rparr>)
      else Inl Out_of_range)"

text \<open>
  What the solver library computes for the three calls of \<^verbatim>\<open>get_model_bv\<close> on a value
  \<open>x\<close>: the bits \<open>high\<close> down to \<open>low\<close>, the integer of a \<open>w\<close>-bit value (two's complement
  when \<^verbatim>\<open>is_signed\<close>), and the read of an integer numeral into an \<^verbatim>\<open>int64\<close>, which
  fails when the numeral does not fit and then leaves \<^verbatim>\<open>oct\<close> unwritten.
\<close>

definition Z3_extract_value :: "nat \<Rightarrow> nat \<Rightarrow> nat \<Rightarrow> nat" where
  "Z3_extract_value high low x = (x div 2 ^ low) mod 2 ^ (high + 1 - low)"

definition Z3_bv2int :: "nat \<Rightarrow> nat \<Rightarrow> bool \<Rightarrow> int" where
  "Z3_bv2int w x is_signed =
     (if is_signed \<and> 0 < w \<and> 2 ^ (w - 1) \<le> x then int x - 2 ^ w else int x)"

definition Z3_get_numeral_int64 :: "int \<Rightarrow> fatal + 64 word" where
  "Z3_get_numeral_int64 n =
     (if - (2 ^ 63) \<le> n \<and> n < 2 ^ 63 then Inr (word_of_int n) else Inl Not_a_numeral)"

text \<open>
  The inner loop: \<^verbatim>\<open>for (j = i*8; j < (max_bits+1)/8; ++j)\<close> with \<open>k\<close> counting from 0.
\<close>

fun pack_bytes :: "nat \<Rightarrow> 64 word \<Rightarrow> nat list \<Rightarrow> bitvector \<Rightarrow> fatal + bitvector" where
  "pack_bytes i oct [] result = Inr result"
| "pack_bytes i oct (j # js) result =
     (let k = j - i * 8 in
      case set_fixed_byte j (ucast (drop_bit (k * 8) oct AND 0xff)) result of
        Inl f \<Rightarrow> Inl f
      | Inr result' \<Rightarrow> pack_bytes i oct js result')"

text \<open>
  The outer loop over the windows \<open>i\<close>. \<^verbatim>\<open>Z3_mk_extract\<close> refuses a high index outside
  the sort of \<open>v\<close>; the model is dereferenced next, the assertion on the window comes after
  the read of the numeral.
\<close>

fun windows :: "z3solver \<Rightarrow> string \<Rightarrow> nat \<Rightarrow> nat list \<Rightarrow> bitvector \<Rightarrow> fatal + bitvector" where
  "windows s var bits [] result = Inr result"
| "windows s var bits (i # is) result =
     (let max_bits = (if i * 64 + 63 > bits then bits - 1 else i * 64 + 63) in
      if bits \<le> max_bits then Inl Z3_exception
      else
        (case model s of
           None \<Rightarrow> Inl Null_model
         | Some m \<Rightarrow>
             (case Z3_get_numeral_int64
                     (Z3_bv2int (max_bits + 1 - i * 64)
                        (Z3_extract_value max_bits (i * 64) (bv_value m var bits mod 2 ^ bits)) True) of
                Inl f \<Rightarrow> Inl f
              | Inr oct \<Rightarrow>
                  if (max_bits + 1) mod 8 \<noteq> 0 then Inl Assertion_failed
                  else
                    (case pack_bytes i oct [i * 8 ..< (max_bits + 1) div 8] result of
                       Inl f \<Rightarrow> Inl f
                     | Inr result' \<Rightarrow> windows s var bits is result'))))"

text \<open>
  \<^verbatim>\<open>Z3Solver::get_model_bv\<close>. The library has no bit-vector sort of width 0, so that
  \<^verbatim>\<open>context_.bv_sort(bits)\<close> raises for it.
\<close>

definition get_model_bv :: "z3solver \<Rightarrow> string \<Rightarrow> nat \<Rightarrow> fatal + bitvector" where
  "get_model_bv s var bits =
     (let octs = (bits + 63) div 64 in
      if bits = 0 then Inl Z3_exception
      else
        (let result = BitVector bits
         in case windows s var bits [0 ..< octs] result of
              Inl f \<Rightarrow> Inl f
            | Inr result' \<Rightarrow>
                if num_bits result' = bits then Inr result' else Inl Assertion_failed))"

text \<open>
  \<^verbatim>\<open>Z3_get_numeral_uint64\<close> writes its output for a numeral only. The numerals of the
  embedding are the bit-vector literals, whose value the library reduces to the width.
\<close>

fun Z3_get_numeral_uint64 :: "z3expr \<Rightarrow> fatal + 64 word" where
  "Z3_get_numeral_uint64 (Z3_bv_val n sz) = Inr (take_bit sz n)"
| "Z3_get_numeral_uint64 e = Inl Not_a_numeral"

text \<open>
  One recorded pair: \<^verbatim>\<open>bv_v(8)\<close> with byte 0 set, stored under \<open>addr\<close>. The assertion reads
  \<open>value\<close> before the map reads \<open>addr\<close>.
\<close>

definition byte_value :: "64 word \<Rightarrow> bitvector" where
  "byte_value v = \<lparr>num_bits = 8, fixed_bytes = [ucast v]\<rparr>"

definition record_pair ::
  "z3expr \<Rightarrow> z3expr \<Rightarrow> (64 word \<rightharpoonup> bitvector) \<Rightarrow> fatal + (64 word \<rightharpoonup> bitvector)" where
  "record_pair k v addr_val_map =
     (case Z3_get_numeral_uint64 v of
        Inl f \<Rightarrow> Inl f
      | Inr val \<Rightarrow>
          if \<not> val \<le> 0xff then Inl Assertion_failed
          else
            (case Z3_get_numeral_uint64 k of
               Inl f \<Rightarrow> Inl f
             | Inr addr \<Rightarrow> Inr (addr_val_map(addr \<mapsto> byte_value val))))"

text \<open>\<^verbatim>\<open>e.decl()\<close> with \<^verbatim>\<open>Z3_get_decl_kind\<close>, and \<^verbatim>\<open>e.arg(i)\<close>.\<close>

fun decl_kind :: "z3expr \<Rightarrow> fatal + z3op option" where
  "decl_kind (Z3_app op as) = Inr (Some op)"
| "decl_kind (Z3_forall xs body) = Inl Z3_exception"
| "decl_kind e = Inr None"

fun arg :: "z3expr \<Rightarrow> nat \<Rightarrow> fatal + z3expr" where
  "arg (Z3_app op as) i = (if i < length as then Inr (as ! i) else Inl Z3_exception)"
| "arg (Z3_function nm sorts ret as) i = (if i < length as then Inr (as ! i) else Inl Z3_exception)"
| "arg e i = Inl Z3_exception"

text \<open>\<^verbatim>\<open>Z3_get_decl_func_decl_parameter(context_, ast, 0)\<close> of a function wrapper.\<close>

fun as_array_decl :: "z3op \<Rightarrow> string option" where
  "as_array_decl (Z3_OP_AS_ARRAY model_fd) = Some model_fd"
| "as_array_decl op = None"

text \<open>
  \<^verbatim>\<open>while (kind == Z3_OP_STORE)\<close>: the pair of the outermost store is recorded, then the
  loop goes on with argument 0. It stops at the first expression of another kind and
  hands it on with the map.
\<close>

fun peel_stores ::
  "z3expr \<Rightarrow> (64 word \<rightharpoonup> bitvector) \<Rightarrow> fatal + (z3expr \<times> (64 word \<rightharpoonup> bitvector))" where
  "peel_stores (Z3_app op as) addr_val_map =
     (if op = Z3_mk_store then
        (case as of
           a # k # v # rest \<Rightarrow>
             (case record_pair k v addr_val_map of
                Inl f \<Rightarrow> Inl f
              | Inr addr_val_map' \<Rightarrow> peel_stores a addr_val_map')
         | _ \<Rightarrow> Inl Z3_exception)
      else Inr (Z3_app op as, addr_val_map))"
| "peel_stores e addr_val_map = Inr (e, addr_val_map)"

text \<open>The loop over the entries of a function interpretation.\<close>

fun func_entries ::
  "(z3expr list \<times> z3expr) list \<Rightarrow> (64 word \<rightharpoonup> bitvector) \<Rightarrow> fatal + (64 word \<rightharpoonup> bitvector)" where
  "func_entries [] addr_val_map = Inr addr_val_map"
| "func_entries ((as, v) # rest) addr_val_map =
     (case as of
        [] \<Rightarrow> Inl Z3_exception
      | k # ks \<Rightarrow>
          (case record_pair k v addr_val_map of
             Inl f \<Rightarrow> Inl f
           | Inr addr_val_map' \<Rightarrow> func_entries rest addr_val_map'))"

text \<open>
  \<^verbatim>\<open>Z3Solver::get_model_array\<close>. The result is the pair the source returns together with
  the lines written to \<^verbatim>\<open>cout\<close>. The conversion of the \<^verbatim>\<open>else\<close> value, a solver
  expression, to \<^verbatim>\<open>uint8_t\<close> is done by the C++ binding and is a collaborator. The
  two bit-vector sorts are made first and need positive widths.
\<close>

type_synonym array_result = "((64 word \<rightharpoonup> bitvector) \<times> 8 word) \<times> string list"

definition get_model_array ::
  "collaborators \<Rightarrow> z3solver \<Rightarrow> string \<Rightarrow> nat \<Rightarrow> nat \<Rightarrow> fatal + array_result" where
  "get_model_array env s var key_bits value_bits =
     (if key_bits = 0 \<or> value_bits = 0 then Inl Z3_exception
      else case model s of
        None \<Rightarrow> Inl Null_model
      | Some m \<Rightarrow>
          (case peel_stores (array_value m var key_bits value_bits) Map.empty of
             Inl f \<Rightarrow> Inl f
           | Inr (e, addr_val_map) \<Rightarrow>
               (case decl_kind e of
                  Inl f \<Rightarrow> Inl f
                | Inr kind \<Rightarrow>
                    if kind = Some Z3_OP_CONST_ARRAY then
                      (case arg e 0 of
                         Inl f \<Rightarrow> Inl f
                       | Inr a \<Rightarrow>
                           (case Z3_get_numeral_uint64 a of
                              Inl f \<Rightarrow> Inl f
                            | Inr val \<Rightarrow>
                                if \<not> val \<le> 0xff then Inl Assertion_failed
                                else Inr ((addr_val_map, ucast val), [])))
                    else
                      (case Option.bind kind as_array_decl of
                         Some model_fd \<Rightarrow>
                           (let fun_interp = get_func_interp m model_fd in
                            case func_entries (entries fun_interp) addr_val_map of
                              Inl f \<Rightarrow> Inl f
                            | Inr addr_val_map' \<Rightarrow>
                                Inr ((addr_val_map', expr_to_uint8 env (else_value fun_interp)), []))
                       | None \<Rightarrow>
                           Inr ((addr_val_map, 0),
                                (if kind = Some Z3_OP_ARRAY_MAP
                                 then [''[z3] Don't know how to handle Z3_OP_ARRAY_MAP'']
                                 else []) @
                                [''[z3] Couldn't parse Z3's AST for array model; may have spurious CEG. ''])))))"

section \<open>Auxiliary notions for the statements\<close>

text \<open>One step of the range-for, named.\<close>

definition split_step :: "symbool list \<Rightarrow> symbool \<Rightarrow> symbool list" where
  "split_step split it =
     (case it of SymBoolAnd a b \<Rightarrow> split_constraints [a, b] @ split | _ \<Rightarrow> split @ [it])"

text \<open>What the conjunctions of a list contribute: the later one in front.\<close>

definition and_results :: "symbool list \<Rightarrow> symbool list" where
  "and_results cs = concat (rev (map (split_step []) (filter is_AND cs)))"

text \<open>The operands of a nest of conjunctions that are not conjunctions themselves.\<close>

fun atoms :: "symbool \<Rightarrow> symbool list" where
  "atoms (SymBoolAnd a b) = atoms a @ atoms b"
| "atoms c = [c]"

declare lowering_loop.simps [simp del]

text \<open>
  Concrete collaborators for the examples: no axioms, every constraint well typed,
  every width 8, a solver that gives a fixed answer and a fixed model, and a schedule
  of interrupts.
\<close>

definition quiet_env :: "(string + check_result) \<Rightarrow> z3model \<Rightarrow> (nat \<Rightarrow> bool) \<Rightarrow> collaborators" where
  "quiet_env answer m raised =
     \<lparr>get_axioms = (\<lambda>cs. []), tc = (\<lambda>c. 1), tc_error = (\<lambda>c. None), print = (\<lambda>c. []),
      width = (\<lambda>b. 8), check = (\<lambda>ts. answer), get_model = (\<lambda>ts. Inr m),
      interrupt = raised, expr_to_uint8 = (\<lambda>e. 1)\<rparr>"

text \<open>
  A model that gives every bit-vector constant the value \<open>n\<close> and every array constant
  the constant array of zeros.
\<close>

definition const_model :: "nat \<Rightarrow> z3model" where
  "const_model n =
     \<lparr>bv_value = (\<lambda>x w. n),
      array_value = (\<lambda>x k v. Z3_app Z3_OP_CONST_ARRAY [Z3_bv_val 0 v]),
      get_func_interp = (\<lambda>f. \<lparr>entries = [], else_value = Z3_bv_val 0 8\<rparr>)\<rparr>"

text \<open>The solver object between calls, and as the reset leaves it.\<close>

definition idle :: z3solver where
  "idle = \<lparr>error = [], model = None, stop_now = False, solver = [], polls = 0\<rparr>"

text \<open>A state in which the call is still running: no error, no model, flag not seen.\<close>

definition running :: "collaborators \<Rightarrow> z3solver \<Rightarrow> bool" where
  "running env s \<longleftrightarrow> error s = [] \<and> model s = None \<and> \<not> stop_now s \<and>
     (\<forall>k<polls s. \<not> interrupt env k)"

text \<open>A state in which the call has failed: an error text, no model.\<close>

definition gave_up :: "collaborators \<Rightarrow> z3solver \<Rightarrow> bool" where
  "gave_up env s \<longleftrightarrow> model s = None \<and> error s \<noteq> [] \<and>
     ((\<exists>k<polls s. interrupt env k) \<longrightarrow> error s = ''External interrupt.'' \<and> stop_now s)"

text \<open>What holds of the result and the state when a call returns.\<close>

definition settled :: "collaborators \<Rightarrow> bool \<Rightarrow> z3solver \<Rightarrow> bool" where
  "settled env r s \<longleftrightarrow> r = (model s \<noteq> None) \<and>
     ((\<exists>k<polls s. interrupt env k) \<longrightarrow> \<not> r \<and> error s = ''External interrupt.'')"

text \<open>
  Values of solver terms, and the part of their standard meaning that the guard of a
  divisor relies on: a true negation has a false operand, a false equality has operands
  of different value, a literal denotes its constant reduced to its width.
\<close>

datatype zval = VBool bool | VBv nat nat | VUndef

text \<open>A valuation of solver terms that reads negation, equality and literals that way.\<close>

definition respects_not_eq :: "(z3expr \<Rightarrow> zval) \<Rightarrow> bool" where
  "respects_not_eq ev \<longleftrightarrow>
     (\<forall>x. ev (Z3_app Z3_mk_not [x]) = VBool True \<longrightarrow> ev x = VBool False) \<and>
     (\<forall>x y. ev (Z3_app Z3_mk_eq [x, y]) = VBool False \<longrightarrow> ev x \<noteq> ev y) \<and>
     (\<forall>n w. ev (Z3_bv_val n w) = VBv w (unat (take_bit w n)))"

text \<open>A valuation satisfies a list of asserted terms.\<close>

definition holds_all :: "(z3expr \<Rightarrow> zval) \<Rightarrow> z3expr list \<Rightarrow> bool" where
  "holds_all ev ts \<longleftrightarrow> (\<forall>t\<in>set ts. ev t = VBool True)"

text \<open>
  A reference evaluator for ground terms over the operators of the examples, with the
  meaning the SMT-LIB theory of bit vectors gives to division and remainder (also by
  zero). Operators it does not cover evaluate to \<open>VUndef\<close>.
\<close>

definition bv_udiv :: "nat \<Rightarrow> nat \<Rightarrow> nat \<Rightarrow> nat" where
  "bv_udiv w a b = (if b = 0 then 2 ^ w - 1 else a div b)"

definition bv_urem :: "nat \<Rightarrow> nat \<Rightarrow> nat \<Rightarrow> nat" where
  "bv_urem w a b = (if b = 0 then a else a mod b)"

definition bv_sdiv :: "nat \<Rightarrow> nat \<Rightarrow> nat \<Rightarrow> nat" where
  "bv_sdiv w a b =
     (let sa = Z3_bv2int w a True; sb = Z3_bv2int w b True in
      if sb = 0 then (if 0 \<le> sa then 2 ^ w - 1 else 1)
      else nat ((sgn sa * sgn sb * (\<bar>sa\<bar> div \<bar>sb\<bar>)) mod 2 ^ w))"

definition bv_srem :: "nat \<Rightarrow> nat \<Rightarrow> nat \<Rightarrow> nat" where
  "bv_srem w a b =
     (let sa = Z3_bv2int w a True; sb = Z3_bv2int w b True in
      if sb = 0 then a else nat ((sgn sa * (\<bar>sa\<bar> mod \<bar>sb\<bar>)) mod 2 ^ w))"

text \<open>A binary operator on two bit vectors of one width.\<close>

definition bv_binary :: "(nat \<Rightarrow> nat \<Rightarrow> nat \<Rightarrow> nat) \<Rightarrow> zval list \<Rightarrow> zval" where
  "bv_binary f vs =
     (case vs of
        [VBv w a, VBv w' b] \<Rightarrow> if w = w' then VBv w (f w a b) else VUndef
      | _ \<Rightarrow> VUndef)"

text \<open>The meaning of the operators the evaluator covers.\<close>

definition apply_op :: "z3op \<Rightarrow> zval list \<Rightarrow> zval" where
  "apply_op op vs =
     (if op = Z3_mk_true then (case vs of [] \<Rightarrow> VBool True | _ \<Rightarrow> VUndef)
      else if op = Z3_mk_false then (case vs of [] \<Rightarrow> VBool False | _ \<Rightarrow> VUndef)
      else if op = Z3_mk_not then (case vs of [VBool p] \<Rightarrow> VBool (\<not> p) | _ \<Rightarrow> VUndef)
      else if op = Z3_and then (case vs of [VBool p, VBool q] \<Rightarrow> VBool (p \<and> q) | _ \<Rightarrow> VUndef)
      else if op = Z3_or then (case vs of [VBool p, VBool q] \<Rightarrow> VBool (p \<or> q) | _ \<Rightarrow> VUndef)
      else if op = Z3_mk_eq then
        (case vs of [u, v] \<Rightarrow> if u = VUndef \<or> v = VUndef then VUndef else VBool (u = v)
         | _ \<Rightarrow> VUndef)
      else if op = Z3_mk_bvudiv then bv_binary bv_udiv vs
      else if op = Z3_mk_bvurem then bv_binary bv_urem vs
      else if op = Z3_mk_bvsdiv then bv_binary bv_sdiv vs
      else if op = Z3_mk_bvsrem then bv_binary bv_srem vs
      else VUndef)"

text \<open>The value of a term under an assignment of naturals to the bit-vector constants.\<close>

fun zeval :: "(string \<Rightarrow> nat) \<Rightarrow> z3expr \<Rightarrow> zval" where
  "zeval \<sigma> (Z3_app op as) = apply_op op (map (zeval \<sigma>) as)"
| "zeval \<sigma> (Z3_bv_val n sz) = VBv sz (unat (take_bit sz n))"
| "zeval \<sigma> (Z3_mk_const x srt) =
     (case srt of bv_sort w \<Rightarrow> VBv w (\<sigma> x mod 2 ^ w) | _ \<Rightarrow> VUndef)"
| "zeval \<sigma> (Z3_function nm sorts ret as) = VUndef"
| "zeval \<sigma> (Z3_forall xs body) = VUndef"

text \<open>
  A store chain as the solver's model writes it: the first update of the list is the
  outermost store, keys are literals of the key width, values literals of the value
  width.
\<close>

fun store_chain :: "nat \<Rightarrow> nat \<Rightarrow> (64 word \<times> 64 word) list \<Rightarrow> z3expr \<Rightarrow> z3expr" where
  "store_chain key_bits value_bits [] base = base"
| "store_chain key_bits value_bits ((k, v) # us) base =
     Z3_app Z3_mk_store
       [store_chain key_bits value_bits us base, Z3_bv_val k key_bits, Z3_bv_val v value_bits]"

text \<open>The pairs of a chain as the decoder reads them, and the map it builds from them.\<close>

definition read_pairs ::
  "nat \<Rightarrow> nat \<Rightarrow> (64 word \<times> 64 word) list \<Rightarrow> (64 word \<times> bitvector) list" where
  "read_pairs key_bits value_bits us =
     map (\<lambda>(k, v). (take_bit key_bits k, byte_value (take_bit value_bits v))) us"

text \<open>The literal of a stored value, read back as \<^verbatim>\<open>uint64_t\<close>, passes \<^verbatim>\<open>value <= 0xff\<close>.\<close>

definition fits_byte :: "nat \<Rightarrow> 64 word \<Rightarrow> bool" where
  "fits_byte value_bits v \<longleftrightarrow> take_bit value_bits v \<le> 0xff"

text \<open>A model whose array constants all have the given value expression.\<close>

definition array_model :: "z3expr \<Rightarrow> z3model" where
  "array_model e =
     \<lparr>bv_value = (\<lambda>x w. 0), array_value = (\<lambda>x k v. e),
      get_func_interp = (\<lambda>f. \<lparr>entries = [], else_value = Z3_bv_val 0 8\<rparr>)\<rparr>"

text \<open>Byte \<open>k\<close> of a natural number, counted from the low end.\<close>

definition le_byte :: "nat \<Rightarrow> nat \<Rightarrow> 8 word" where
  "le_byte v k = word_of_nat ((v div 2 ^ (8 * k)) mod 256)"

text \<open>One past the highest bit of window \<open>i\<close> of a \<open>bits\<close>-wide vector.\<close>

definition window_top :: "nat \<Rightarrow> nat \<Rightarrow> nat" where
  "window_top bits i = min (64 * i + 64) bits"

declare windows.simps [simp del]

text \<open>
  The unsigned integer of window \<open>i\<close>, in the words of the specification: the bits of
  the value from \<open>64 i\<close> up, at most 64 of them.
\<close>

definition window_width :: "nat \<Rightarrow> nat \<Rightarrow> nat" where
  "window_width bits i = min 64 (bits - 64 * i)"

definition window_uint :: "nat \<Rightarrow> nat \<Rightarrow> nat \<Rightarrow> nat" where
  "window_uint x bits i = (x div 2 ^ (64 * i)) mod 2 ^ window_width bits i"

text \<open>
  The side constraints a batch leaves behind when every constraint of it lowers: the
  guards of the signed divisions its constraints hold.
\<close>

definition side_constraints :: "(symbv \<Rightarrow> nat) \<Rightarrow> symbool list \<Rightarrow> symbool list" where
  "side_constraints w cs = concat (map (\<lambda>c. map (divisor_guard w) (sdiv_divisors_bool c)) cs)"

lemma side_constraints_rank:
  assumes "cs \<noteq> []"
  shows "batch_rank (side_constraints w cs) < batch_rank cs"
proof -
  from assms obtain c0 where "c0 \<in> set cs" by (cases cs) auto
  then have pos: "0 < batch_rank cs" using batch_rank_member by fastforce
  have less: "length (sdiv_divisors_bool d) < batch_rank cs - 1"
    if "d \<in> set (side_constraints w cs)" for d
  proof -
    from that obtain c b where cb: "c \<in> set cs" "b \<in> set (sdiv_divisors_bool c)"
      "d = divisor_guard w b" by (auto simp: side_constraints_def)
    have "length (sdiv_divisors_bv b) < length (sdiv_divisors_bool c)"
      using divisors_smaller(2) cb(2) by blast
    moreover have "length (sdiv_divisors_bool c) < batch_rank cs"
      using cb(1) by (rule batch_rank_member)
    ultimately show ?thesis by (simp add: cb(3))
  qed
  show ?thesis
  proof (cases "side_constraints w cs = []")
    case True
    with pos show ?thesis by (simp add: batch_rank_def)
  next
    case False
    then obtain d where d: "d \<in> set (side_constraints w cs)"
      by (cases "side_constraints w cs") auto
    have "0 < batch_rank cs - 1" using less [OF d] by simp
    then have "batch_rank (side_constraints w cs) \<le> batch_rank cs - 1"
      using less by (intro batch_rank_bound) auto
    with pos show ?thesis by simp
  qed
qed

text \<open>
  The batches the worklist of \<^verbatim>\<open>is_sat\<close> goes through when nothing stops it: the
  flattened list first, then the side constraints of the batch before, until a batch
  leaves none.
\<close>

function rounds :: "(symbv \<Rightarrow> nat) \<Rightarrow> symbool list \<Rightarrow> symbool list list" where
  "rounds w cs = (if cs = [] then [] else cs # rounds w (side_constraints w cs))"
  by pat_completeness auto
termination
  by (relation "measure (\<lambda>(w, cs). batch_rank cs)") (auto intro: side_constraints_rank)

declare rounds.simps [simp del]

text \<open>
  The places at which the lowering loop samples the interrupt flag, in the order of
  the run: \<open>None\<close> is the sample at the head of a round, \<open>Some c\<close> the sample before the
  constraint \<open>c\<close>. A call has one more sample, right before the decision procedure.
\<close>

definition events :: "(symbv \<Rightarrow> nat) \<Rightarrow> symbool list \<Rightarrow> symbool option list" where
  "events w cs = concat (map (\<lambda>batch. None # map Some batch) (rounds w cs))"

definition sample_points :: "collaborators \<Rightarrow> symbool list \<Rightarrow> symbool option list" where
  "sample_points env constraints =
     events (width env) (split_constraints (constraints @ get_axioms env constraints)) @ [None]"

text \<open>
  A sample point is passed without a \<^verbatim>\<open>return\<close> of another kind when its constraint is
  accepted by the typechecker and is lowered to a term.
\<close>

definition fine :: "collaborators \<Rightarrow> symbool option \<Rightarrow> bool" where
  "fine env e =
     (case e of None \<Rightarrow> True | Some c \<Rightarrow> tc env c = 1 \<and> \<not> isl (visit_bool (width env) c))"

text \<open>The terms asserted for the constraints of a stretch of sample points.\<close>

definition lowered :: "(symbv \<Rightarrow> nat) \<Rightarrow> symbool option list \<Rightarrow> z3expr list" where
  "lowered w es =
     concat (map (\<lambda>e. case e of
                        None \<Rightarrow> []
                      | Some c \<Rightarrow> (case visit_bool w c of Inl f \<Rightarrow> [] | Inr (t, cs, err) \<Rightarrow> [t]))
                 es)"

text \<open>
  The solver object in the middle of a call, after \<open>p\<close> samples, with the terms \<open>ts\<close>
  asserted; and as a positive sample leaves it.
\<close>

definition at_work :: "z3expr list \<Rightarrow> nat \<Rightarrow> z3solver" where
  "at_work ts p = \<lparr>error = [], model = None, stop_now = False, solver = ts, polls = p\<rparr>"

definition interrupted :: "z3expr list \<Rightarrow> nat \<Rightarrow> z3solver" where
  "interrupted ts p =
     \<lparr>error = ''External interrupt.'', model = None, stop_now = True, solver = ts, polls = p\<rparr>"

section \<open>Properties\<close>

subsection \<open>Flattening\<close>

lemma split_constraints_foldl: "split_constraints cs = foldl split_step [] cs"
  by (subst split_constraints.simps) (simp add: split_step_def [abs_def] Let_def)

lemma split_step_AND [simp]:
  "split_step acc (SymBoolAnd a b) = split_constraints [a, b] @ acc"
  by (simp add: split_step_def)

lemma split_step_other [simp]: "\<not> is_AND it \<Longrightarrow> split_step acc it = acc @ [it]"
  by (cases it) (simp_all add: split_step_def)

lemma is_AND_E: "is_AND it \<Longrightarrow> (\<And>a b. it = SymBoolAnd a b \<Longrightarrow> P) \<Longrightarrow> P"
  by (cases it) simp_all

lemma foldl_split_step:
  "foldl split_step acc cs = and_results cs @ acc @ filter (\<lambda>c. \<not> is_AND c) cs"
proof (induction cs arbitrary: acc)
  case Nil
  show ?case by (simp add: and_results_def)
next
  case (Cons c cs)
  show ?case
  proof (cases "is_AND c")
    case True
    then obtain a b where c: "c = SymBoolAnd a b" by (rule is_AND_E)
    show ?thesis by (simp add: c Cons.IH and_results_def)
  next
    case False
    then show ?thesis by (simp add: Cons.IH and_results_def)
  qed
qed

lemma split_constraints_shape:
  "split_constraints cs = and_results cs @ filter (\<lambda>c. \<not> is_AND c) cs"
  by (simp add: split_constraints_foldl foldl_split_step)

lemma atoms_other: "\<not> is_AND c \<Longrightarrow> atoms c = [c]"
  by (cases c) simp_all

lemma set_split_constraints:
  "set (split_constraints cs) = (\<Union>c\<in>set cs. set (atoms c))"
proof (induction cs rule: split_constraints.induct)
  case (1 constraints)
  have r: "set (split_step [] c) = set (atoms c)" if "c \<in> set constraints" "is_AND c" for c
  proof -
    from that(2) obtain a b where c: "c = SymBoolAnd a b" by (rule is_AND_E)
    have "set (split_constraints [a, b]) = (\<Union>c\<in>set [a, b]. set (atoms c))"
      using "1.IH" that(1) c by blast
    then show ?thesis by (auto simp: c)
  qed
  have "set (split_constraints constraints) =
        (\<Union>c\<in>{c \<in> set constraints. is_AND c}. set (split_step [] c)) \<union>
        {c \<in> set constraints. \<not> is_AND c}"
    by (auto simp: split_constraints_shape and_results_def)
  also have "\<dots> = (\<Union>c\<in>{c \<in> set constraints. is_AND c}. set (atoms c)) \<union>
        (\<Union>c\<in>{c \<in> set constraints. \<not> is_AND c}. set (atoms c))"
    using r by (auto simp: atoms_other)
  also have "\<dots> = (\<Union>c\<in>set constraints. set (atoms c))" by blast
  finally show ?case .
qed

lemma atoms_not_AND: "x \<in> set (atoms c) \<Longrightarrow> \<not> is_AND x"
  by (induction c rule: atoms.induct) auto

lemma split_constraints_no_AND: "x \<in> set (split_constraints cs) \<Longrightarrow> \<not> is_AND x"
  by (auto simp: set_split_constraints dest: atoms_not_AND)

lemma split_constraints_id:
  assumes "\<forall>c\<in>set cs. \<not> is_AND c" shows "split_constraints cs = cs"
proof -
  have "filter is_AND cs = []" using assms by (auto simp: filter_empty_conv)
  moreover have "filter (\<lambda>c. \<not> is_AND c) cs = cs" using assms by (auto intro: filter_True)
  ultimately show ?thesis by (simp add: split_constraints_shape and_results_def)
qed

lemma atoms_nonempty: "atoms c \<noteq> []"
  by (induction c rule: atoms.induct) auto

lemma split_constraints_Nil_iff: "split_constraints cs = [] \<longleftrightarrow> cs = []"
proof
  assume e: "split_constraints cs = []"
  show "cs = []"
  proof (rule ccontr)
    assume "cs \<noteq> []"
    then obtain c where c: "c \<in> set cs" by (cases cs) auto
    obtain x where "x \<in> set (atoms c)" using atoms_nonempty [of c] by (cases "atoms c") auto
    with c have "x \<in> set (split_constraints cs)" by (auto simp: set_split_constraints)
    with e show False by simp
  qed
next
  assume "cs = []"
  then show "split_constraints cs = []" by (simp add: split_constraints_foldl)
qed

lemma atoms_conj:
  assumes "\<And>a b. ev (SymBoolAnd a b) = (ev a \<and> ev b)"
  shows "(\<forall>x\<in>set (atoms c). ev x) = ev c"
  by (induction c rule: atoms.induct) (auto simp: assms)

text \<open>
  C4. For every input sequence, \<^verbatim>\<open>split_constraints\<close> returns a sequence without a
  top-level AND node; the input elements that are not AND nodes pass through unchanged
  and in their order, at the end of the result; under every reading of the constraints
  in which an AND node holds exactly when both operands hold, all elements of the
  result hold exactly when all elements of the input hold; and flattening the result
  again returns it unchanged.
\<close>

theorem split_constraints_flattens:
  "(\<forall>c\<in>set (split_constraints cs). \<not> is_AND c) \<and>
   (\<exists>front. split_constraints cs = front @ filter (\<lambda>c. \<not> is_AND c) cs) \<and>
   (\<forall>ev. (\<forall>a b. ev (SymBoolAnd a b) = (ev a \<and> ev b)) \<longrightarrow>
      ((\<forall>c\<in>set (split_constraints cs). ev c) = (\<forall>c\<in>set cs. ev c))) \<and>
   split_constraints (split_constraints cs) = split_constraints cs"
proof (intro conjI allI impI)
  show "\<forall>c\<in>set (split_constraints cs). \<not> is_AND c"
    using split_constraints_no_AND by blast
  show "\<exists>front. split_constraints cs = front @ filter (\<lambda>c. \<not> is_AND c) cs"
    using split_constraints_shape by blast
  show "split_constraints (split_constraints cs) = split_constraints cs"
    by (rule split_constraints_id) (use split_constraints_no_AND in blast)
next
  fix ev :: "symbool \<Rightarrow> bool"
  assume "\<forall>a b. ev (SymBoolAnd a b) = (ev a \<and> ev b)"
  then have "(\<forall>x\<in>set (atoms c). ev x) = ev c" for c
    by (intro atoms_conj) simp
  then show "(\<forall>c\<in>set (split_constraints cs). ev c) = (\<forall>c\<in>set cs. ev c)"
    by (auto simp: set_split_constraints)
qed

theorem split_constraints_flattens_witness:
  "(\<forall>a b. (SymBoolFalse \<notin> set (atoms (SymBoolAnd a b))) =
           (SymBoolFalse \<notin> set (atoms a) \<and> SymBoolFalse \<notin> set (atoms b))) \<and>
   split_constraints
     [SymBoolAnd (SymBoolVar ''p'') (SymBoolAnd SymBoolTrue (SymBoolVar ''q'')), SymBoolFalse] =
     [SymBoolTrue, SymBoolVar ''q'', SymBoolVar ''p'', SymBoolFalse] \<and>
   ((\<forall>c\<in>set (split_constraints
        [SymBoolAnd (SymBoolVar ''p'') (SymBoolAnd SymBoolTrue (SymBoolVar ''q'')), SymBoolFalse]).
       SymBoolFalse \<notin> set (atoms c)) =
    (\<forall>c\<in>set [SymBoolAnd (SymBoolVar ''p'') (SymBoolAnd SymBoolTrue (SymBoolVar ''q'')),
               SymBoolFalse].
       SymBoolFalse \<notin> set (atoms c)))"
proof -
  let ?cs = "[SymBoolAnd (SymBoolVar ''p'') (SymBoolAnd SymBoolTrue (SymBoolVar ''q'')), SymBoolFalse]"
  have h: "\<forall>a b. (SymBoolFalse \<notin> set (atoms (SymBoolAnd a b))) =
           (SymBoolFalse \<notin> set (atoms a) \<and> SymBoolFalse \<notin> set (atoms b))"
    by simp
  have e: "split_constraints ?cs =
      [SymBoolTrue, SymBoolVar ''q'', SymBoolVar ''p'', SymBoolFalse]"
    by (simp add: split_constraints_foldl)
  have "\<forall>ev. (\<forall>a b. ev (SymBoolAnd a b) = (ev a \<and> ev b)) \<longrightarrow>
      ((\<forall>c\<in>set (split_constraints ?cs). ev c) = (\<forall>c\<in>set ?cs. ev c))"
    using split_constraints_flattens [of ?cs] by (elim conjE)
  then have "(\<forall>a b. (\<lambda>c. SymBoolFalse \<notin> set (atoms c)) (SymBoolAnd a b) =
        ((\<lambda>c. SymBoolFalse \<notin> set (atoms c)) a \<and> (\<lambda>c. SymBoolFalse \<notin> set (atoms c)) b)) \<longrightarrow>
      ((\<forall>c\<in>set (split_constraints ?cs). (\<lambda>c. SymBoolFalse \<notin> set (atoms c)) c) =
       (\<forall>c\<in>set ?cs. (\<lambda>c. SymBoolFalse \<notin> set (atoms c)) c))"
    by (rule spec)
  with h have r: "(\<forall>c\<in>set (split_constraints ?cs). SymBoolFalse \<notin> set (atoms c)) =
        (\<forall>c\<in>set ?cs. SymBoolFalse \<notin> set (atoms c))"
    by (elim impE) assumption+
  show ?thesis by (intro conjI) (rule h, rule e, rule r)
qed

subsection \<open>The call protocol of is_sat\<close>

lemma reset_state_any: "reset_state (s :: z3solver) = idle"
  by (simp add: reset_state_def idle_def)

lemma is_sat_any_state: "is_sat env cs (s :: z3solver) = is_sat env cs idle"
  by (simp add: is_sat_def reset_state_any)

lemma is_sat_empty:
  assumes "constraints @ get_axioms env constraints = []"
  shows "is_sat env constraints s0 = Inl Invalid_delete"
proof -
  have "split_constraints (constraints @ get_axioms env constraints) = []"
    using assms by (simp only: split_constraints_Nil_iff)
  then show ?thesis
    unfolding is_sat_def Let_def by simp
qed

lemma is_sat_nonempty:
  assumes "constraints @ get_axioms env constraints \<noteq> []"
  shows "is_sat env constraints s0 =
       (case lowering_loop env (split_constraints (constraints @ get_axioms env constraints))
               idle of
          Inl f \<Rightarrow> Inl f
        | Inr (False, s1) \<Rightarrow> Inr (False, s1)
        | Inr (True, s1) \<Rightarrow> run_solver env s1)"
proof -
  have "split_constraints (constraints @ get_axioms env constraints) \<noteq> []"
    using assms by (simp only: split_constraints_Nil_iff not_False_eq_True)
  then show ?thesis
    unfolding is_sat_def Let_def reset_state_any by (simp only: if_False)
qed

lemma is_sat_returns_nonempty:
  "is_sat env constraints s0 = Inr (r, s') \<Longrightarrow> constraints @ get_axioms env constraints \<noteq> []"
  using is_sat_empty [of constraints env s0] by auto

lemma check_abort_True:
  "check_abort env s = (True, s') \<Longrightarrow>
     (stop_now s \<or> interrupt env (polls s)) \<and>
     s' = s\<lparr>stop_now := True, polls := Suc (polls s), error := ''External interrupt.''\<rparr>"
  by (auto simp: check_abort_def Let_def split: if_splits)

lemma check_abort_False:
  "check_abort env s = (False, s') \<Longrightarrow>
     \<not> stop_now s \<and> \<not> interrupt env (polls s) \<and> s' = s\<lparr>stop_now := False, polls := Suc (polls s)\<rparr>"
  by (auto simp: check_abort_def Let_def split: if_splits)

lemma check_abort_running:
  assumes "running env s"
  shows "case check_abort env s of
           (True, s') \<Rightarrow> gave_up env s' \<and> error s' = ''External interrupt.'' \<and>
                         solver s' = solver s \<and> interrupt env (polls s)
         | (False, s') \<Rightarrow> running env s' \<and> solver s' = solver s \<and> \<not> interrupt env (polls s)
              \<and> polls s' = Suc (polls s)"
  using assms
  by (auto simp: check_abort_def Let_def running_def gave_up_def less_Suc_eq)

lemma typecheck_message_nonempty: "typecheck_message env it \<noteq> []"
  by (simp add: typecheck_message_def)

lemma lower_batch_running:
  "running env s \<Longrightarrow> lower_batch env current new s = Inr (r, s') \<Longrightarrow>
     (case r of None \<Rightarrow> gave_up env s' | Some n \<Rightarrow> running env s')"
proof (induction current arbitrary: new s)
  case Nil
  then show ?case by auto
next
  case (Cons it rest)
  from check_abort_running [OF Cons.prems(1)] show ?case
  proof (cases "check_abort env s")
    case (Pair b s1)
    show ?thesis
    proof (cases b)
      case True
      with Pair Cons.prems check_abort_running [OF Cons.prems(1)] show ?thesis by auto
    next
      case False
      with Pair check_abort_running [OF Cons.prems(1)] have r1: "running env s1" by simp
      show ?thesis
      proof (cases "tc env it \<noteq> 1")
        case True
        with Pair False Cons.prems(2) have "r = None" "s' = s1\<lparr>error := typecheck_message env it\<rparr>"
          by auto
        with r1 show ?thesis
          by (auto simp: gave_up_def running_def typecheck_message_nonempty)
      next
        case tcok: False
        show ?thesis
        proof (cases "visit_bool (width env) it")
          case (Inl f)
          with Pair False tcok Cons.prems(2) show ?thesis by simp
        next
          case (Inr v)
          obtain t cs err where v: "v = (t, cs, err)" by (cases v)
          show ?thesis
          proof (cases "err = []")
            case True
            with Pair False tcok Inr v Cons.prems(2)
            have "lower_batch env rest (new @ cs) (s1\<lparr>solver := solver s1 @ [t]\<rparr>) = Inr (r, s')"
              by simp
            moreover have "running env (s1\<lparr>solver := solver s1 @ [t]\<rparr>)"
              using r1 by (simp add: running_def)
            ultimately show ?thesis using Cons.IH by blast
          next
            case e: False
            with Pair False tcok Inr v Cons.prems(2) have "r = None" "s' = s1\<lparr>error := err\<rparr>"
              by auto
            with r1 e show ?thesis by (auto simp: gave_up_def running_def)
          qed
        qed
      qed
    qed
  qed
qed

lemma lowering_loop_running:
  "running env s \<Longrightarrow> lowering_loop env current s = Inr (r, s') \<Longrightarrow>
     (if r then running env s' else gave_up env s')"
proof (induction env current s rule: lowering_loop.induct)
  case (1 env current s)
  show ?case
  proof (cases "current = []")
    case True
    with "1.prems" show ?thesis by (simp add: lowering_loop.simps)
  next
    case ne: False
    obtain b s1 where ca: "check_abort env s = (b, s1)" by (cases "check_abort env s")
    show ?thesis
    proof (cases b)
      case True
      with ca ne "1.prems" check_abort_running [OF "1.prems"(1)] show ?thesis
        by (auto simp: lowering_loop.simps)
    next
      case False
      with ca check_abort_running [OF "1.prems"(1)] have r1: "running env s1" by simp
      show ?thesis
      proof (cases "lower_batch env current [] s1")
        case (Inl f)
        with ca False ne "1.prems" show ?thesis by (simp add: lowering_loop.simps)
      next
        case (Inr p)
        obtain n s2 where p: "p = (n, s2)" by (cases p)
        show ?thesis
        proof (cases n)
          case None
          with ca False ne Inr p "1.prems" lower_batch_running [OF r1, of current "[]" None s2]
          show ?thesis by (simp add: lowering_loop.simps)
        next
          case (Some new)
          from Inr p Some lower_batch_running [OF r1, of current "[]" "Some new" s2]
          have r2: "running env s2" by simp
          from ca False ne Inr p Some "1.prems"
          have "lowering_loop env new s2 = Inr (r, s')" by (simp add: lowering_loop.simps)
          with "1.IH" [OF ne ca [symmetric] _ Inr p [symmetric] Some r2] False
          show ?thesis by simp
        qed
      qed
    qed
  qed
qed

lemma running_idle: "running env idle"
  by (simp add: running_def idle_def)

lemma gave_up_settled: "gave_up env s \<Longrightarrow> settled env False s"
  by (auto simp: gave_up_def settled_def)

lemma run_solver_settled:
  assumes "running env s" "run_solver env s = Inr (r, s')"
  shows "settled env r s'"
proof -
  obtain b s1 where ca: "check_abort env s = (b, s1)" by (cases "check_abort env s")
  show ?thesis
  proof (cases b)
    case True
    with ca assms check_abort_running [OF assms(1)] show ?thesis
      by (auto simp: run_solver_def gave_up_settled)
  next
    case False
    with ca check_abort_running [OF assms(1)] have "running env s1" by simp
    then have r1: "error s1 = []" "model s1 = None" "\<forall>k<polls s1. \<not> interrupt env k"
      by (auto simp: running_def)
    from ca False assms(2) r1 show ?thesis
      by (auto simp: run_solver_def settled_def split: sum.splits check_result.splits)
  qed
qed

lemma is_sat_settled:
  assumes "is_sat env constraints s0 = Inr (r, s')"
  shows "settled env r s'"
proof -
  let ?split = "split_constraints (constraints @ get_axioms env constraints)"
  note ne = is_sat_returns_nonempty [OF assms]
  from assms obtain b s1 where ll: "lowering_loop env ?split idle = Inr (b, s1)"
    by (auto simp: is_sat_nonempty [OF ne] split: sum.splits)
  from lowering_loop_running [OF running_idle ll]
  have inv: "if b then running env s1 else gave_up env s1" .
  show ?thesis
  proof (cases b)
    case True
    with ll assms have "run_solver env s1 = Inr (r, s')"
      by (simp add: is_sat_nonempty [OF ne])
    with inv True show ?thesis using run_solver_settled by simp
  next
    case False
    with ll assms have "r = False" "s' = s1"
      by (simp_all add: is_sat_nonempty [OF ne])
    with inv False show ?thesis using gave_up_settled by simp
  qed
qed

lemma is_sat_True_solver:
  assumes "is_sat env constraints s0 = Inr (True, s')"
  shows "\<exists>m. check env (solver s') = Inr sat \<and> get_model env (solver s') = Inr m \<and>
             model s' = Some m \<and> error s' = [] \<and>
             (\<exists>s1. lowering_loop env (split_constraints (constraints @ get_axioms env constraints)) idle
                    = Inr (True, s1) \<and> solver s1 = solver s')"
proof -
  let ?split = "split_constraints (constraints @ get_axioms env constraints)"
  note ne = is_sat_returns_nonempty [OF assms]
  from assms obtain s1 where ll: "lowering_loop env ?split idle = Inr (True, s1)"
    and rs: "run_solver env s1 = Inr (True, s')"
    by (auto simp: is_sat_nonempty [OF ne] split: sum.splits bool.splits)
  from lowering_loop_running [OF running_idle ll] have r1: "running env s1" by simp
  obtain b s2 where ca: "check_abort env s1 = (b, s2)" by (cases "check_abort env s1")
  with rs have b: "\<not> b" by (auto simp: run_solver_def)
  with ca check_abort_running [OF r1] have r2: "running env s2" "solver s2 = solver s1" by auto
  from rs ca b obtain m where "check env (solver s2) = Inr sat" "get_model env (solver s2) = Inr m"
    "s' = s2\<lparr>model := Some m\<rparr>"
    by (auto simp: run_solver_def split: sum.splits check_result.splits)
  with r2 ll show ?thesis by (auto simp: running_def)
qed

lemma rounds_Nil [simp]: "rounds w [] = []"
  by (simp add: rounds.simps)

lemma rounds_Cons [simp]:
  "rounds w (c # cs) = (c # cs) # rounds w (side_constraints w (c # cs))"
  by (subst rounds.simps) simp

lemma events_Nil [simp]: "events w [] = []"
  by (simp add: events_def)

lemma events_unfold:
  "cs \<noteq> [] \<Longrightarrow> events w cs = None # map Some cs @ events w (side_constraints w cs)"
  by (cases cs) (simp_all add: events_def)

lemma lowered_simps [simp]:
  "lowered w [] = []"
  "lowered w (None # es) = lowered w es"
  "lowered w (es @ es') = lowered w es @ lowered w es'"
  by (simp_all add: lowered_def)

lemma lowered_Some:
  "visit_bool w c = Inr (t, cs, err) \<Longrightarrow> lowered w (Some c # es) = t # lowered w es"
  by (simp add: lowered_def)

lemma check_abort_at_work:
  "check_abort env (at_work ts p) =
     (if interrupt env p then (True, interrupted ts (Suc p)) else (False, at_work ts (Suc p)))"
  by (simp add: check_abort_def at_work_def interrupted_def Let_def)

lemma fine_SomeD:
  assumes "fine env (Some c)"
  obtains t where "tc env c = 1"
    "visit_bool (width env) c =
       Inr (t, map (divisor_guard (width env)) (sdiv_divisors_bool c), [])"
proof -
  from assms have tc: "tc env c = 1" and ok: "\<not> isl (visit_bool (width env) c)"
    by (simp_all add: fine_def)
  from ok obtain t cs err where v: "visit_bool (width env) c = Inr (t, cs, err)"
    by (cases "visit_bool (width env) c") auto
  with visit_effects(2) [of "width env" c]
  have "cs = map (divisor_guard (width env)) (sdiv_divisors_bool c)" "err = []" by simp_all
  with v tc that show thesis by blast
qed

lemma at_work_solver [simp]:
  "(at_work ts p)\<lparr>solver := solver (at_work ts p) @ [t]\<rparr> = at_work (ts @ [t]) p"
  by (simp add: at_work_def)

lemma lower_batch_quiet:
  assumes "\<forall>c\<in>set batch. fine env (Some c)" "\<forall>j<length batch. \<not> interrupt env (p + j)"
  shows "lower_batch env batch new (at_work ts p) =
           Inr (Some (new @ side_constraints (width env) batch),
                at_work (ts @ lowered (width env) (map Some batch)) (p + length batch))"
  using assms
proof (induction batch arbitrary: new ts p)
  case Nil
  show ?case by (simp add: side_constraints_def)
next
  case (Cons c batch)
  from Cons.prems(2) have n0: "\<not> interrupt env p" by force
  have nj: "\<forall>j<length batch. \<not> interrupt env (Suc p + j)"
  proof (intro allI impI)
    fix j assume "j < length batch"
    then have "Suc j < length (c # batch)" by simp
    with Cons.prems(2) have "\<not> interrupt env (p + Suc j)" by blast
    then show "\<not> interrupt env (Suc p + j)" by simp
  qed
  from Cons.prems(1) have fc: "fine env (Some c)" and fb: "\<forall>c\<in>set batch. fine env (Some c)"
    by simp_all
  from fc obtain t where tc: "tc env c = 1" and
    v: "visit_bool (width env) c =
          Inr (t, map (divisor_guard (width env)) (sdiv_divisors_bool c), [])"
    by (rule fine_SomeD)
  have "lower_batch env (c # batch) new (at_work ts p) =
        lower_batch env batch (new @ map (divisor_guard (width env)) (sdiv_divisors_bool c))
          (at_work (ts @ [t]) (Suc p))"
    using n0 tc v by (simp add: check_abort_at_work del: visit_bool.simps)
  also have "\<dots> = Inr (Some ((new @ map (divisor_guard (width env)) (sdiv_divisors_bool c)) @
                            side_constraints (width env) batch),
                      at_work ((ts @ [t]) @ lowered (width env) (map Some batch))
                        (Suc p + length batch))"
    using fb nj by (rule Cons.IH)
  finally show ?case
    by (simp add: side_constraints_def lowered_Some [OF v])
qed

lemma lower_batch_interrupted:
  assumes "k < length batch" "\<forall>c\<in>set (take k batch). fine env (Some c)"
    "\<forall>j<k. \<not> interrupt env (p + j)" "interrupt env (p + k)"
  shows "lower_batch env batch new (at_work ts p) =
           Inr (None, interrupted (ts @ lowered (width env) (map Some (take k batch)))
                        (Suc (p + k)))"
  using assms
proof (induction batch arbitrary: new ts p k)
  case Nil
  then show ?case by simp
next
  case (Cons c batch)
  show ?case
  proof (cases k)
    case 0
    with Cons.prems(4) show ?thesis by (simp add: check_abort_at_work)
  next
    case (Suc k')
    with Cons.prems(3) have n0: "\<not> interrupt env p" by force
    have nj: "\<forall>j<k'. \<not> interrupt env (Suc p + j)"
    proof (intro allI impI)
      fix j assume "j < k'"
      then have "Suc j < k" using Suc by simp
      with Cons.prems(3) have "\<not> interrupt env (p + Suc j)" by blast
      then show "\<not> interrupt env (Suc p + j)" by simp
    qed
    from Cons.prems(1) Suc have k': "k' < length batch" by simp
    from Cons.prems(4) Suc have up: "interrupt env (Suc p + k')" by simp
    from Cons.prems(2) Suc have fc: "fine env (Some c)"
      and fb: "\<forall>c\<in>set (take k' batch). fine env (Some c)" by simp_all
    from fc obtain t where tc: "tc env c = 1" and
      v: "visit_bool (width env) c =
            Inr (t, map (divisor_guard (width env)) (sdiv_divisors_bool c), [])"
      by (rule fine_SomeD)
    have "lower_batch env (c # batch) new (at_work ts p) =
          lower_batch env batch (new @ map (divisor_guard (width env)) (sdiv_divisors_bool c))
            (at_work (ts @ [t]) (Suc p))"
      using n0 tc v by (simp add: check_abort_at_work del: visit_bool.simps)
    also have "\<dots> = Inr (None, interrupted ((ts @ [t]) @ lowered (width env) (map Some (take k' batch)))
                        (Suc (Suc p + k')))"
      using k' fb nj up by (rule Cons.IH)
    finally show ?thesis
      by (simp add: Suc lowered_Some [OF v])
  qed
qed

lemmas run_defs = is_sat_def reset_state_def split_constraints_foldl lowering_loop.simps
  check_abort_def run_solver_def Let_def mk_def push_back_def

lemma quiet_env_simps [simp]:
  "get_axioms (quiet_env a m i) = (\<lambda>cs. [])" "tc (quiet_env a m i) = (\<lambda>c. 1)"
  "width (quiet_env a m i) = (\<lambda>b. 8)" "check (quiet_env a m i) = (\<lambda>ts. a)"
  "get_model (quiet_env a m i) = (\<lambda>ts. Inr m)" "interrupt (quiet_env a m i) = i"
  by (simp_all add: quiet_env_def)

lemma quiet_head: "\<forall>j<Suc n. \<not> raised (p + j) \<Longrightarrow> \<not> raised (p :: nat)"
  by force

lemma quiet_shift:
  assumes "\<forall>j<n + m. \<not> raised (p + j)"
  shows "\<forall>j<m. \<not> raised (p + n + (j :: nat))"
proof (intro allI impI)
  fix j assume "j < m"
  then have "n + j < n + m" by simp
  with assms have "\<not> raised (p + (n + j))" by blast
  then show "\<not> raised (p + n + j)" by (simp add: add.assoc)
qed

lemma quiet_prefix: "\<forall>j<n + m. \<not> raised (p + j) \<Longrightarrow> \<forall>j<n. \<not> raised (p + (j :: nat))"
  by simp

lemma lowering_loop_quiet:
  assumes "w = width env" "\<forall>e\<in>set (events w cur). fine env e"
    "\<forall>j<length (events w cur). \<not> interrupt env (p + j)"
  shows "lowering_loop env cur (at_work ts p) =
           Inr (True, at_work (ts @ lowered w (events w cur)) (p + length (events w cur)))"
  using assms
proof (induction w cur arbitrary: ts p rule: rounds.induct)
  case (1 w cs)
  show ?case
  proof (cases "cs = []")
    case True
    then show ?thesis by (simp add: lowering_loop.simps)
  next
    case ne: False
    let ?next = "side_constraints w cs"
    note ev = events_unfold [OF ne, of w]
    have len: "length (events w cs) = Suc (length cs + length (events w ?next))"
      by (simp add: ev)
    from "1.prems"(3) have q: "\<forall>j<1 + (length cs + length (events w ?next)). \<not> interrupt env (p + j)"
      by (simp add: len)
    from q have n0: "\<not> interrupt env p" by force
    from quiet_shift [OF q] have q1: "\<forall>j<length cs + length (events w ?next). \<not> interrupt env (Suc p + j)"
      by simp
    from quiet_prefix [OF q1] have nb: "\<forall>j<length cs. \<not> interrupt env (Suc p + j)" .
    from quiet_shift [OF q1] have nn: "\<forall>j<length (events w ?next). \<not> interrupt env (Suc p + length cs + j)" .
    from "1.prems"(2) have fb: "\<forall>c\<in>set cs. fine env (Some c)"
      and fn: "\<forall>e\<in>set (events w ?next). fine env e"
      by (simp_all add: ev)
    have lb: "lower_batch env cs [] (at_work ts (Suc p)) =
        Inr (Some ?next, at_work (ts @ lowered w (map Some cs)) (Suc p + length cs))"
      using lower_batch_quiet [OF fb nb, of "[]" ts] "1.prems"(1) by simp
    have "lowering_loop env cs (at_work ts p) =
          lowering_loop env ?next (at_work (ts @ lowered w (map Some cs)) (Suc p + length cs))"
      using ne n0 lb by (subst lowering_loop.simps) (simp add: check_abort_at_work)
    also have "\<dots> = Inr (True, at_work ((ts @ lowered w (map Some cs)) @ lowered w (events w ?next))
                            ((Suc p + length cs) + length (events w ?next)))"
      using "1.prems"(1) fn nn by (rule "1.IH" [OF ne])
    finally show ?thesis by (simp add: ev add.assoc)
  qed
qed

lemma lowering_loop_interrupted:
  assumes "w = width env" "k < length (events w cur)"
    "\<forall>e\<in>set (take k (events w cur)). fine env e"
    "\<forall>j<k. \<not> interrupt env (p + j)" "interrupt env (p + k)"
  shows "lowering_loop env cur (at_work ts p) =
           Inr (False, interrupted (ts @ lowered w (take k (events w cur))) (Suc (p + k)))"
  using assms
proof (induction w cur arbitrary: ts p k rule: rounds.induct)
  case (1 w cs)
  show ?case
  proof (cases "cs = []")
    case True
    with "1.prems"(2) show ?thesis by simp
  next
    case ne: False
    let ?next = "side_constraints w cs"
    note ev = events_unfold [OF ne, of w]
    show ?thesis
    proof (cases k)
      case 0
      with "1.prems"(5) ne show ?thesis
        by (subst lowering_loop.simps) (simp add: check_abort_at_work)
    next
      case (Suc k')
      from "1.prems"(4) Suc have q: "\<forall>j<1 + k'. \<not> interrupt env (p + j)" by simp
      from q have n0: "\<not> interrupt env p" by force
      from quiet_shift [OF q] have q1: "\<forall>j<k'. \<not> interrupt env (Suc p + j)" by simp
      from "1.prems"(5) Suc have up: "interrupt env (Suc p + k')" by simp
      from "1.prems"(3) Suc have f1: "\<forall>e\<in>set (take k' (map Some cs @ events w ?next)). fine env e"
        by (simp add: ev)
      from "1.prems"(2) Suc have k': "k' < length cs + length (events w ?next)"
        by (simp add: ev)
      show ?thesis
      proof (cases "k' < length cs")
        case True
        from f1 True have fb: "\<forall>c\<in>set (take k' cs). fine env (Some c)"
          by (simp add: take_map)
        have lb: "lower_batch env cs [] (at_work ts (Suc p)) =
            Inr (None, interrupted (ts @ lowered w (map Some (take k' cs))) (Suc (Suc p + k')))"
          using lower_batch_interrupted [OF True fb q1 up, of "[]" ts] "1.prems"(1) by simp
        have "lowering_loop env cs (at_work ts p) =
            Inr (False, interrupted (ts @ lowered w (map Some (take k' cs))) (Suc (Suc p + k')))"
          using ne n0 lb by (subst lowering_loop.simps) (simp add: check_abort_at_work)
        then show ?thesis using True by (simp add: ev Suc take_map)
      next
        case False
        define d where "d = k' - length cs"
        from False have k'd: "k' = length cs + d" by (simp add: d_def)
        from q1 have q2: "\<forall>j<length cs + d. \<not> interrupt env (Suc p + j)" by (simp add: k'd)
        from quiet_prefix [OF q2] have nb: "\<forall>j<length cs. \<not> interrupt env (Suc p + j)" .
        from quiet_shift [OF q2] have nn: "\<forall>j<d. \<not> interrupt env (Suc p + length cs + j)" .
        from up have up': "interrupt env (Suc p + length cs + d)" by (simp add: k'd add.assoc)
        from k' have dlt: "d < length (events w ?next)" by (simp add: k'd)
        from f1 have fb: "\<forall>c\<in>set cs. fine env (Some c)"
          and fn: "\<forall>e\<in>set (take d (events w ?next)). fine env e"
          by (simp_all add: k'd)
        have lb: "lower_batch env cs [] (at_work ts (Suc p)) =
            Inr (Some ?next, at_work (ts @ lowered w (map Some cs)) (Suc p + length cs))"
          using lower_batch_quiet [OF fb nb, of "[]" ts] "1.prems"(1) by simp
        have "lowering_loop env cs (at_work ts p) =
              lowering_loop env ?next (at_work (ts @ lowered w (map Some cs)) (Suc p + length cs))"
          using ne n0 lb by (subst lowering_loop.simps) (simp add: check_abort_at_work)
        also have "\<dots> = Inr (False, interrupted ((ts @ lowered w (map Some cs)) @
                                lowered w (take d (events w ?next)))
                              (Suc ((Suc p + length cs) + d)))"
          using "1.prems"(1) dlt fn nn up' by (rule "1.IH" [OF ne])
        finally show ?thesis by (simp add: ev Suc k'd add.assoc)
      qed
    qed
  qed
qed

lemma idle_at_work: "idle = at_work [] 0"
  by (simp add: idle_def at_work_def)

lemma sample_points_events:
  "sample_points env constraints =
     events (width env) (split_constraints (constraints @ get_axioms env constraints)) @ [None]"
  by (simp add: sample_points_def)

lemma is_sat_interrupted:
  assumes ne: "constraints @ get_axioms env constraints \<noteq> []"
    and k: "k < length (sample_points env constraints)"
    and fine: "\<forall>e\<in>set (take k (sample_points env constraints)). fine env e"
    and quiet: "\<forall>j<k. \<not> interrupt env j" and up: "interrupt env k"
  shows "is_sat env constraints s0 =
           Inr (False, interrupted (lowered (width env) (take k (sample_points env constraints)))
                  (Suc k))"
proof -
  let ?w = "width env"
  let ?split = "split_constraints (constraints @ get_axioms env constraints)"
  let ?ev = "events ?w ?split"
  have sp: "sample_points env constraints = ?ev @ [None]" by (rule sample_points_events)
  show ?thesis
  proof (cases "k < length ?ev")
    case True
    from fine True have f: "\<forall>e\<in>set (take k ?ev). fine env e" by (simp add: sp)
    from quiet have q: "\<forall>j<k. \<not> interrupt env (0 + j)" by simp
    from up have u: "interrupt env (0 + k)" by simp
    have "lowering_loop env ?split (at_work [] 0) =
        Inr (False, interrupted ([] @ lowered ?w (take k ?ev)) (Suc (0 + k)))"
      using refl True f q u by (rule lowering_loop_interrupted)
    then show ?thesis using True by (simp add: is_sat_nonempty [OF ne] idle_at_work sp)
  next
    case False
    with k have ke: "k = length ?ev" by (simp add: sp)
    from fine have f: "\<forall>e\<in>set ?ev. fine env e" by (simp add: sp ke)
    from quiet have q: "\<forall>j<length ?ev. \<not> interrupt env (0 + j)" by (simp add: ke)
    have "lowering_loop env ?split (at_work [] 0) =
        Inr (True, at_work ([] @ lowered ?w ?ev) (0 + length ?ev))"
      using refl f q by (rule lowering_loop_quiet)
    then have "is_sat env constraints s0 = run_solver env (at_work (lowered ?w ?ev) k)"
      by (simp add: is_sat_nonempty [OF ne] idle_at_work ke)
    also have "\<dots> = Inr (False, interrupted (lowered ?w ?ev) (Suc k))"
      using up by (simp add: run_solver_def check_abort_at_work)
    finally show ?thesis by (simp add: sp ke)
  qed
qed

lemma is_sat_quiet:
  assumes ne: "constraints @ get_axioms env constraints \<noteq> []"
    and fine: "\<forall>e\<in>set (sample_points env constraints). fine env e"
    and quiet: "\<forall>j<length (sample_points env constraints). \<not> interrupt env j"
  shows "is_sat env constraints s0 =
           run_solver env (at_work (lowered (width env) (sample_points env constraints))
                                   (length (sample_points env constraints) - 1)) \<and>
         check_abort env (at_work (lowered (width env) (sample_points env constraints))
                                   (length (sample_points env constraints) - 1)) =
           (False, at_work (lowered (width env) (sample_points env constraints))
                                   (length (sample_points env constraints)))"
proof -
  let ?w = "width env"
  let ?split = "split_constraints (constraints @ get_axioms env constraints)"
  let ?ev = "events ?w ?split"
  have sp: "sample_points env constraints = ?ev @ [None]" by (rule sample_points_events)
  from fine have f: "\<forall>e\<in>set ?ev. fine env e" by (simp add: sp)
  from quiet have q: "\<forall>j<length ?ev. \<not> interrupt env (0 + j)" by (simp add: sp)
  from quiet have last: "\<not> interrupt env (length ?ev)" by (simp add: sp)
  have "lowering_loop env ?split (at_work [] 0) =
      Inr (True, at_work ([] @ lowered ?w ?ev) (0 + length ?ev))"
    using refl f q by (rule lowering_loop_quiet)
  then have "is_sat env constraints s0 = run_solver env (at_work (lowered ?w ?ev) (length ?ev))"
    by (simp add: is_sat_nonempty [OF ne] idle_at_work)
  with last show ?thesis by (simp add: sp check_abort_at_work)
qed

lemma is_sat_False_quiet:
  assumes "is_sat env constraints s0 = Inr (False, s')" "error s' = []"
  shows "check env (solver s') = Inr unsat"
proof -
  let ?split = "split_constraints (constraints @ get_axioms env constraints)"
  note ne = is_sat_returns_nonempty [OF assms(1)]
  from assms(1) obtain b s1 where ll: "lowering_loop env ?split idle = Inr (b, s1)"
    by (auto simp: is_sat_nonempty [OF ne] split: sum.splits)
  from lowering_loop_running [OF running_idle ll]
  have inv: "if b then running env s1 else gave_up env s1" .
  have b: b
  proof (rule ccontr)
    assume nb: "\<not> b"
    with ll assms(1) have "s' = s1" by (simp add: is_sat_nonempty [OF ne])
    with inv nb assms(2) show False by (simp add: gave_up_def)
  qed
  with inv have r1: "running env s1" by simp
  from b ll assms(1) have rs: "run_solver env s1 = Inr (False, s')"
    by (simp add: is_sat_nonempty [OF ne])
  obtain i s2 where ca: "check_abort env s1 = (i, s2)" by (cases "check_abort env s1")
  have ni: "\<not> i"
  proof
    assume i
    with ca rs have "s' = s2" by (simp add: run_solver_def)
    with ca \<open>i\<close> check_abort_True [of env s1 s2] assms(2) show False by simp
  qed
  with ca check_abort_running [OF r1] have r2: "running env s2" by simp
  then have e2: "error s2 = []" by (simp add: running_def)
  from rs ca ni assms(2) e2 show ?thesis
    by (auto simp: run_solver_def std_exception_what_def split: sum.splits check_result.splits)
qed

text \<open>
  C10. Whatever the object held before the call, \<^verbatim>\<open>is_sat\<close> starts from the same state:
  the error slot empty, no model, the flag cleared, nothing asserted. So the result and
  the state after a call do not depend on the state before it. Whenever a call returns,
  on any path, it returns true exactly when a model is retained afterwards; a return of
  false leaves no model for the decoders; a return of true leaves the error slot empty
  and retains the model the solver gave for the asserted terms after answering
  \<^verbatim>\<open>sat\<close>; and a return of false with an empty error slot happens only when the solver
  answered \<^verbatim>\<open>unsat\<close>.
\<close>

theorem is_sat_true_iff_model_retained:
  assumes "is_sat env constraints s0 = Inr (r, s')"
  shows "reset_state s0 =
           \<lparr>error = [], model = None, stop_now = False, solver = [], polls = 0\<rparr> \<and>
         is_sat env constraints s1 = Inr (r, s') \<and>
         r = (model s' \<noteq> None) \<and>
         (\<not> r \<longrightarrow> model s' = None) \<and>
         (r \<longrightarrow> error s' = [] \<and>
              (\<exists>m. check env (solver s') = Inr sat \<and> get_model env (solver s') = Inr m \<and>
                   model s' = Some m)) \<and>
         (\<not> r \<and> error s' = [] \<longrightarrow> check env (solver s') = Inr unsat)"
proof (intro conjI impI)
  show "reset_state s0 = \<lparr>error = [], model = None, stop_now = False, solver = [], polls = 0\<rparr>"
    by (simp add: reset_state_def)
  show "is_sat env constraints s1 = Inr (r, s')"
    using assms is_sat_any_state by metis
  show m: "r = (model s' \<noteq> None)"
    using is_sat_settled [OF assms] by (simp add: settled_def)
  show "model s' = None" if "\<not> r" using m that by simp
  show "error s' = []" if r
    using is_sat_True_solver [of env constraints s0 s'] assms that by auto
  show "\<exists>m. check env (solver s') = Inr sat \<and> get_model env (solver s') = Inr m \<and>
            model s' = Some m" if r
    using is_sat_True_solver [of env constraints s0 s'] assms that by auto
  show "check env (solver s') = Inr unsat" if "\<not> r \<and> error s' = []"
    using is_sat_False_quiet [of env constraints s0 s'] assms that by auto
qed

theorem is_sat_true_iff_model_retained_witness:
  "is_sat (quiet_env (Inr unsat) (const_model 0) (\<lambda>k. False)) [SymBoolTrue]
     \<lparr>error = ''z3 gave up.'', model = Some (const_model 7), stop_now = True,
      solver = [Z3_app Z3_mk_false []], polls = 9\<rparr> =
     Inr (False, \<lparr>error = [], model = None, stop_now = False,
                  solver = [Z3_app Z3_mk_true []], polls = 3\<rparr>) \<and>
   reset_state \<lparr>error = ''z3 gave up.'', model = Some (const_model 7), stop_now = True,
      solver = [Z3_app Z3_mk_false []], polls = 9\<rparr> =
     \<lparr>error = [], model = None, stop_now = False, solver = [], polls = 0\<rparr> \<and>
   is_sat (quiet_env (Inr unsat) (const_model 0) (\<lambda>k. False)) [SymBoolTrue] idle =
     Inr (False, \<lparr>error = [], model = None, stop_now = False,
                  solver = [Z3_app Z3_mk_true []], polls = 3\<rparr>) \<and>
   check (quiet_env (Inr unsat) (const_model 0) (\<lambda>k. False)) [Z3_app Z3_mk_true []] = Inr unsat"
proof -
  let ?env = "quiet_env (Inr unsat) (const_model 0) (\<lambda>k. False)"
  let ?dirty = "\<lparr>error = ''z3 gave up.'', model = Some (const_model 7), stop_now = True,
      solver = [Z3_app Z3_mk_false []], polls = 9\<rparr>"
  let ?s' = "\<lparr>error = [], model = None, stop_now = False,
                  solver = [Z3_app Z3_mk_true []], polls = 3\<rparr>"
  have e: "is_sat ?env [SymBoolTrue] ?dirty = Inr (False, ?s')"
    by (simp add: run_defs)
  note t = is_sat_true_iff_model_retained [OF e, of idle]
  from t have a: "reset_state ?dirty =
           \<lparr>error = [], model = None, stop_now = False, solver = [], polls = 0\<rparr>"
    by (elim conjE)
  from t have b: "is_sat ?env [SymBoolTrue] idle = Inr (False, ?s')"
    by (elim conjE)
  from t have "\<not> False \<and> error ?s' = [] \<longrightarrow> check ?env (solver ?s') = Inr unsat"
    by (elim conjE)
  then have c: "check ?env [Z3_app Z3_mk_true []] = Inr unsat" by simp
  show ?thesis by (intro conjI) (rule e, rule a, rule b, rule c)
qed

text \<open>
  C3, as stated, fails: a flag that is set when \<^verbatim>\<open>is_sat\<close> is called is cleared by the
  reset at the head of the call. With the flag set beforehand and nobody raising it
  during the call, a satisfiable query is lowered, solved and answered with true.
\<close>

theorem interrupt_before_call_counterexample:
  "stop_now (idle\<lparr>stop_now := True\<rparr>) \<and>
   is_sat (quiet_env (Inr sat) (const_model 0) (\<lambda>k. False))
     [SymBoolEq (SymBitVectorVar ''x'' 8) (SymBitVectorConstant 8 0)]
     (idle\<lparr>stop_now := True\<rparr>) =
   Inr (True,
        \<lparr>error = [], model = Some (const_model 0), stop_now = False,
         solver = [Z3_app Z3_mk_eq [Z3_mk_const ''x'' (bv_sort 8), Z3_bv_val 0 8]],
         polls = 3\<rparr>)"
  by (simp add: run_defs idle_def)

text \<open>
  C2. For a call on a constraint list that is not empty, whose lowering ran to the end
  and whose last sample of the flag was negative, the answer of the decision procedure
  decides the outcome: \<^verbatim>\<open>unsat\<close> returns false with no model and an empty error slot;
  \<^verbatim>\<open>sat\<close> returns true and retains the model the solver gives; \<^verbatim>\<open>unknown\<close> returns
  false with no model and the error text "z3 gave up.", which tells it from \<^verbatim>\<open>unsat\<close>;
  any other value fails the assertion of the \<^verbatim>\<open>default\<close> branch and reports nothing.
\<close>

theorem solver_outcome_three_kinds:
  assumes "constraints @ get_axioms env constraints \<noteq> []"
    and "lowering_loop env (split_constraints (constraints @ get_axioms env constraints))
             (reset_state s0) = Inr (True, s1)"
    and "\<not> interrupt env (polls s1)"
  shows "(check env (solver s1) = Inr unsat \<longrightarrow>
            (\<exists>s'. is_sat env constraints s0 = Inr (False, s') \<and> model s' = None \<and> error s' = [])) \<and>
         (\<forall>m. check env (solver s1) = Inr sat \<and> get_model env (solver s1) = Inr m \<longrightarrow>
            (\<exists>s'. is_sat env constraints s0 = Inr (True, s') \<and> model s' = Some m \<and> error s' = [])) \<and>
         (check env (solver s1) = Inr unknown \<longrightarrow>
            (\<exists>s'. is_sat env constraints s0 = Inr (False, s') \<and> model s' = None \<and>
                  error s' = ''z3 gave up.'')) \<and>
         (check env (solver s1) = Inr out_of_enum \<longrightarrow>
            is_sat env constraints s0 = Inl Assertion_failed)"
proof -
  from assms(2) have ll: "lowering_loop env (split_constraints (constraints @ get_axioms env constraints))
      idle = Inr (True, s1)" by (simp add: reset_state_any)
  from lowering_loop_running [OF running_idle ll] have r1: "running env s1" by simp
  then have f: "error s1 = []" "model s1 = None" "\<not> stop_now s1" by (auto simp: running_def)
  have eq: "is_sat env constraints s0 = run_solver env s1"
    using ll by (simp add: is_sat_nonempty [OF assms(1)])
  have ca: "check_abort env s1 = (False, s1\<lparr>stop_now := False, polls := Suc (polls s1)\<rparr>)"
    using f assms(3) by (simp add: check_abort_def Let_def)
  show ?thesis
    using f by (auto simp: eq run_solver_def ca)
qed

theorem solver_outcome_three_kinds_witness:
  "(\<exists>s'. is_sat (quiet_env (Inr unsat) (const_model 0) (\<lambda>k. False)) [SymBoolTrue] idle = Inr (False, s') \<and>
         model s' = None \<and> error s' = []) \<and>
   (\<exists>s'. is_sat (quiet_env (Inr sat) (const_model 0) (\<lambda>k. False)) [SymBoolTrue] idle = Inr (True, s') \<and>
         model s' = Some (const_model 0) \<and> error s' = []) \<and>
   (\<exists>s'. is_sat (quiet_env (Inr unknown) (const_model 0) (\<lambda>k. False)) [SymBoolTrue] idle = Inr (False, s') \<and>
         model s' = None \<and> error s' = ''z3 gave up.'') \<and>
   is_sat (quiet_env (Inr out_of_enum) (const_model 0) (\<lambda>k. False)) [SymBoolTrue] idle
     = Inl Assertion_failed"
proof -
  let ?s1 = "\<lparr>error = [], model = None, stop_now = False, solver = [Z3_app Z3_mk_true []], polls = 2\<rparr>"
  have ne: "[SymBoolTrue] @ get_axioms (quiet_env a (const_model 0) (\<lambda>k. False)) [SymBoolTrue] \<noteq> []"
    for a by simp
  have ll: "lowering_loop (quiet_env a (const_model 0) (\<lambda>k. False))
      (split_constraints ([SymBoolTrue] @ get_axioms (quiet_env a (const_model 0) (\<lambda>k. False)) [SymBoolTrue]))
      (reset_state idle) = Inr (True, ?s1)" for a
    by (simp add: run_defs idle_def)
  have ni: "\<not> interrupt (quiet_env a (const_model 0) (\<lambda>k. False)) (polls ?s1)" for a
    by simp
  show ?thesis
    using solver_outcome_three_kinds [OF ne ll ni, of "Inr unsat"]
      solver_outcome_three_kinds [OF ne ll ni, of "Inr sat"]
      solver_outcome_three_kinds [OF ne ll ni, of "Inr unknown"]
      solver_outcome_three_kinds [OF ne ll ni, of "Inr out_of_enum"]
    by simp
qed

text \<open>
  C3, amended. The value the flag has before the call does not matter, since the call
  clears it. After the reset the flag is sampled at the head of every round of the
  lowering loop, before each constraint of the round, and once more right before the
  decision procedure: these are the sample points of the call, in this order. On a
  call with a constraint list that is not empty, in which the constraints sampled
  before point \<open>k\<close> pass the typechecker and lower, a flag that is first up at point
  \<open>k\<close> ends the call there: it returns false with the error text "External
  interrupt.", with no model, with exactly the terms of the constraints sampled before
  \<open>k\<close> asserted and with no sample taken after \<open>k\<close>; at the last point this is the
  return before the decision procedure, whatever the solver would have answered. If
  the flag is down at every sample point, the call reaches the decision procedure and
  a satisfiable answer is returned as true: a flag raised after the last point is not
  seen. And any call that returns after a sample saw the flag returns false with that
  error text.
\<close>

theorem interrupt_seen_after_reset:
  "is_sat env constraints (s0\<lparr>stop_now := b\<rparr>) = is_sat env constraints s0 \<and>
   (\<forall>k<length (sample_points env constraints).
      constraints @ get_axioms env constraints \<noteq> [] \<and>
      (\<forall>e\<in>set (take k (sample_points env constraints)). fine env e) \<and>
      (\<forall>j<k. \<not> interrupt env j) \<and> interrupt env k \<longrightarrow>
      is_sat env constraints s0 =
        Inr (False,
             \<lparr>error = ''External interrupt.'', model = None, stop_now = True,
              solver = lowered (width env) (take k (sample_points env constraints)),
              polls = Suc k\<rparr>)) \<and>
   (\<forall>m. constraints @ get_axioms env constraints \<noteq> [] \<and>
      (\<forall>e\<in>set (sample_points env constraints). fine env e) \<and>
      (\<forall>j<length (sample_points env constraints). \<not> interrupt env j) \<and>
      check env (lowered (width env) (sample_points env constraints)) = Inr sat \<and>
      get_model env (lowered (width env) (sample_points env constraints)) = Inr m \<longrightarrow>
      is_sat env constraints s0 =
        Inr (True,
             \<lparr>error = [], model = Some m, stop_now = False,
              solver = lowered (width env) (sample_points env constraints),
              polls = length (sample_points env constraints)\<rparr>)) \<and>
   (\<forall>r s'. is_sat env constraints s0 = Inr (r, s') \<and> (\<exists>k<polls s'. interrupt env k) \<longrightarrow>
      \<not> r \<and> error s' = ''External interrupt.'')"
proof (intro conjI allI impI)
  show "is_sat env constraints (s0\<lparr>stop_now := b\<rparr>) = is_sat env constraints s0"
    using is_sat_any_state by metis
next
  fix k
  assume k: "k < length (sample_points env constraints)"
    and h: "constraints @ get_axioms env constraints \<noteq> [] \<and>
      (\<forall>e\<in>set (take k (sample_points env constraints)). fine env e) \<and>
      (\<forall>j<k. \<not> interrupt env j) \<and> interrupt env k"
  from h have ne: "constraints @ get_axioms env constraints \<noteq> []" by (elim conjE)
  from h have f: "\<forall>e\<in>set (take k (sample_points env constraints)). fine env e"
    by (elim conjE)
  from h have q: "\<forall>j<k. \<not> interrupt env j" by (elim conjE)
  from h have up: "interrupt env k" by (elim conjE)
  from is_sat_interrupted [OF ne k f q up]
  show "is_sat env constraints s0 =
        Inr (False,
             \<lparr>error = ''External interrupt.'', model = None, stop_now = True,
              solver = lowered (width env) (take k (sample_points env constraints)),
              polls = Suc k\<rparr>)"
    by (simp add: interrupted_def)
next
  fix m
  assume h: "constraints @ get_axioms env constraints \<noteq> [] \<and>
      (\<forall>e\<in>set (sample_points env constraints). fine env e) \<and>
      (\<forall>j<length (sample_points env constraints). \<not> interrupt env j) \<and>
      check env (lowered (width env) (sample_points env constraints)) = Inr sat \<and>
      get_model env (lowered (width env) (sample_points env constraints)) = Inr m"
  from h have ne: "constraints @ get_axioms env constraints \<noteq> []" by (elim conjE)
  from h have f: "\<forall>e\<in>set (sample_points env constraints). fine env e" by (elim conjE)
  from h have q: "\<forall>j<length (sample_points env constraints). \<not> interrupt env j"
    by (elim conjE)
  from h have c: "check env (lowered (width env) (sample_points env constraints)) = Inr sat"
    by (elim conjE)
  from h have g: "get_model env (lowered (width env) (sample_points env constraints)) = Inr m"
    by (elim conjE)
  from is_sat_quiet [OF ne f q, of s0] c g
  show "is_sat env constraints s0 =
        Inr (True,
             \<lparr>error = [], model = Some m, stop_now = False,
              solver = lowered (width env) (sample_points env constraints),
              polls = length (sample_points env constraints)\<rparr>)"
    by (simp add: run_solver_def at_work_def)
next
  fix r s'
  assume "is_sat env constraints s0 = Inr (r, s') \<and> (\<exists>k<polls s'. interrupt env k)"
  then show "\<not> r" "error s' = ''External interrupt.''"
    using is_sat_settled [of env constraints s0 r s'] by (auto simp: settled_def)
qed

theorem interrupt_seen_after_reset_witness:
  "sample_points (quiet_env (Inr sat) (const_model 1) (\<lambda>k. k = 4))
     [SymBoolEq (SymBitVectorSignDiv (SymBitVectorVar ''x'' 8) (SymBitVectorVar ''y'' 8))
        (SymBitVectorConstant 8 1)] =
     [None,
      Some (SymBoolEq (SymBitVectorSignDiv (SymBitVectorVar ''x'' 8) (SymBitVectorVar ''y'' 8))
              (SymBitVectorConstant 8 1)),
      None,
      Some (SymBoolNot (SymBoolEq (SymBitVectorVar ''y'' 8) (SymBitVectorConstant 8 0))),
      None] \<and>
   is_sat (quiet_env (Inr sat) (const_model 1) (\<lambda>k. k = 4))
     [SymBoolEq (SymBitVectorSignDiv (SymBitVectorVar ''x'' 8) (SymBitVectorVar ''y'' 8))
        (SymBitVectorConstant 8 1)] idle =
     Inr (False,
          \<lparr>error = ''External interrupt.'', model = None, stop_now = True,
           solver =
             [Z3_app Z3_mk_eq
                [Z3_app Z3_mk_bvsdiv [Z3_mk_const ''x'' (bv_sort 8), Z3_mk_const ''y'' (bv_sort 8)],
                 Z3_bv_val 1 8],
              Z3_app Z3_mk_not [Z3_app Z3_mk_eq [Z3_mk_const ''y'' (bv_sort 8), Z3_bv_val 0 8]]],
           polls = 5\<rparr>) \<and>
   is_sat (quiet_env (Inr sat) (const_model 1) (\<lambda>k. k = 2))
     [SymBoolEq (SymBitVectorSignDiv (SymBitVectorVar ''x'' 8) (SymBitVectorVar ''y'' 8))
        (SymBitVectorConstant 8 1)] idle =
     Inr (False,
          \<lparr>error = ''External interrupt.'', model = None, stop_now = True,
           solver =
             [Z3_app Z3_mk_eq
                [Z3_app Z3_mk_bvsdiv [Z3_mk_const ''x'' (bv_sort 8), Z3_mk_const ''y'' (bv_sort 8)],
                 Z3_bv_val 1 8]],
           polls = 3\<rparr>) \<and>
   is_sat (quiet_env (Inr sat) (const_model 1) (\<lambda>k. k = 5))
     [SymBoolEq (SymBitVectorSignDiv (SymBitVectorVar ''x'' 8) (SymBitVectorVar ''y'' 8))
        (SymBitVectorConstant 8 1)] idle =
     Inr (True,
          \<lparr>error = [], model = Some (const_model 1), stop_now = False,
           solver =
             [Z3_app Z3_mk_eq
                [Z3_app Z3_mk_bvsdiv [Z3_mk_const ''x'' (bv_sort 8), Z3_mk_const ''y'' (bv_sort 8)],
                 Z3_bv_val 1 8],
              Z3_app Z3_mk_not [Z3_app Z3_mk_eq [Z3_mk_const ''y'' (bv_sort 8), Z3_bv_val 0 8]]],
           polls = 5\<rparr>)"
proof -
  let ?c = "SymBoolEq (SymBitVectorSignDiv (SymBitVectorVar ''x'' 8) (SymBitVectorVar ''y'' 8))
        (SymBitVectorConstant 8 1)"
  let ?g = "SymBoolNot (SymBoolEq (SymBitVectorVar ''y'' 8) (SymBitVectorConstant 8 0))"
  let ?tc = "Z3_app Z3_mk_eq
                [Z3_app Z3_mk_bvsdiv [Z3_mk_const ''x'' (bv_sort 8), Z3_mk_const ''y'' (bv_sort 8)],
                 Z3_bv_val 1 8]"
  let ?tg = "Z3_app Z3_mk_not [Z3_app Z3_mk_eq [Z3_mk_const ''y'' (bv_sort 8), Z3_bv_val 0 8]]"
  let ?env = "\<lambda>n :: nat. quiet_env (Inr sat) (const_model 1) (\<lambda>k. k = n)"
  let ?sp = "[None, Some ?c, None, Some ?g, None]"
  have sp: "sample_points (?env n) [?c] = ?sp" for n
    by (simp add: sample_points_def events_def side_constraints_def split_constraints_foldl
        divisor_guard_def bv_neq_def SymBitVector_constant_def)
  have vc: "visit_bool (\<lambda>b. 8) ?c = Inr (?tc, [?g], [])"
    by (simp add: mk_def push_back_def Let_def bv_neq_def SymBitVector_constant_def)
  have vg: "visit_bool (\<lambda>b. 8) ?g = Inr (?tg, [], [])"
    by (simp add: mk_def push_back_def Let_def)
  have fine: "\<forall>e\<in>set ?sp. fine (?env n) e" for n
    by (simp add: fine_def vc vg del: visit_bool.simps)
  have low: "lowered (\<lambda>b. 8) ?sp = [?tc, ?tg]"
    by (simp add: lowered_def vc vg del: visit_bool.simps)
  have low2: "lowered (\<lambda>b. 8) (take 2 ?sp) = [?tc]"
    by (simp add: lowered_def vc del: visit_bool.simps)
  have low4: "lowered (\<lambda>b. 8) (take 4 ?sp) = [?tc, ?tg]"
    by (simp add: lowered_def vc vg del: visit_bool.simps)
  note t = interrupt_seen_after_reset [where env = "?env 4" and constraints = "[?c]"
      and ?s0.0 = idle and b = False]
  from t have "\<forall>k<length (sample_points (?env 4) [?c]).
      [?c] @ get_axioms (?env 4) [?c] \<noteq> [] \<and>
      (\<forall>e\<in>set (take k (sample_points (?env 4) [?c])). fine (?env 4) e) \<and>
      (\<forall>j<k. \<not> interrupt (?env 4) j) \<and> interrupt (?env 4) k \<longrightarrow>
      is_sat (?env 4) [?c] idle =
        Inr (False,
             \<lparr>error = ''External interrupt.'', model = None, stop_now = True,
              solver = lowered (width (?env 4)) (take k (sample_points (?env 4) [?c])),
              polls = Suc k\<rparr>)"
    by (elim conjE)
  then have "4 < length ?sp \<and> (\<forall>e\<in>set (take 4 ?sp). fine (?env 4) e) \<longrightarrow>
      is_sat (?env 4) [?c] idle =
        Inr (False,
             \<lparr>error = ''External interrupt.'', model = None, stop_now = True,
              solver = lowered (\<lambda>b. 8) (take 4 ?sp), polls = Suc 4\<rparr>)"
    unfolding sp by auto
  with fine [of 4] have a: "is_sat (?env 4) [?c] idle =
        Inr (False,
             \<lparr>error = ''External interrupt.'', model = None, stop_now = True,
              solver = [?tc, ?tg], polls = 5\<rparr>)"
    unfolding low4 by simp
  note u = interrupt_seen_after_reset [where env = "?env 2" and constraints = "[?c]"
      and ?s0.0 = idle and b = False]
  from u have "\<forall>k<length (sample_points (?env 2) [?c]).
      [?c] @ get_axioms (?env 2) [?c] \<noteq> [] \<and>
      (\<forall>e\<in>set (take k (sample_points (?env 2) [?c])). fine (?env 2) e) \<and>
      (\<forall>j<k. \<not> interrupt (?env 2) j) \<and> interrupt (?env 2) k \<longrightarrow>
      is_sat (?env 2) [?c] idle =
        Inr (False,
             \<lparr>error = ''External interrupt.'', model = None, stop_now = True,
              solver = lowered (width (?env 2)) (take k (sample_points (?env 2) [?c])),
              polls = Suc k\<rparr>)"
    by (elim conjE)
  then have "2 < length ?sp \<and> (\<forall>e\<in>set (take 2 ?sp). fine (?env 2) e) \<longrightarrow>
      is_sat (?env 2) [?c] idle =
        Inr (False,
             \<lparr>error = ''External interrupt.'', model = None, stop_now = True,
              solver = lowered (\<lambda>b. 8) (take 2 ?sp), polls = Suc 2\<rparr>)"
    unfolding sp by auto
  with fine [of 2] have b: "is_sat (?env 2) [?c] idle =
        Inr (False,
             \<lparr>error = ''External interrupt.'', model = None, stop_now = True,
              solver = [?tc], polls = 3\<rparr>)"
    unfolding low2 by simp
  note v = interrupt_seen_after_reset [where env = "?env 5" and constraints = "[?c]"
      and ?s0.0 = idle and b = False]
  from v have "\<forall>m. [?c] @ get_axioms (?env 5) [?c] \<noteq> [] \<and>
      (\<forall>e\<in>set (sample_points (?env 5) [?c]). fine (?env 5) e) \<and>
      (\<forall>j<length (sample_points (?env 5) [?c]). \<not> interrupt (?env 5) j) \<and>
      check (?env 5) (lowered (width (?env 5)) (sample_points (?env 5) [?c])) = Inr sat \<and>
      get_model (?env 5) (lowered (width (?env 5)) (sample_points (?env 5) [?c])) = Inr m \<longrightarrow>
      is_sat (?env 5) [?c] idle =
        Inr (True,
             \<lparr>error = [], model = Some m, stop_now = False,
              solver = lowered (width (?env 5)) (sample_points (?env 5) [?c]),
              polls = length (sample_points (?env 5) [?c])\<rparr>)"
    by (elim conjE)
  then have "(\<forall>e\<in>set ?sp. fine (?env 5) e) \<longrightarrow>
      is_sat (?env 5) [?c] idle =
        Inr (True,
             \<lparr>error = [], model = Some (const_model 1), stop_now = False,
              solver = lowered (\<lambda>b. 8) ?sp, polls = length ?sp\<rparr>)"
    unfolding sp by auto
  with fine [of 5] have c: "is_sat (?env 5) [?c] idle =
        Inr (True,
             \<lparr>error = [], model = Some (const_model 1), stop_now = False,
              solver = [?tc, ?tg], polls = 5\<rparr>)"
    unfolding low by simp
  show ?thesis by (intro conjI) (rule sp, rule a, rule b, rule c)
qed

subsection \<open>Side constraints of signed division\<close>

lemma zeval_respects: "respects_not_eq (zeval \<sigma>)"
  unfolding respects_not_eq_def
proof (intro conjI allI impI)
  fix x assume "zeval \<sigma> (Z3_app Z3_mk_not [x]) = VBool True"
  then show "zeval \<sigma> x = VBool False"
    by (cases "zeval \<sigma> x") (auto simp: apply_op_def)
next
  fix x y assume "zeval \<sigma> (Z3_app Z3_mk_eq [x, y]) = VBool False"
  then show "zeval \<sigma> x \<noteq> zeval \<sigma> y"
    by (auto simp: apply_op_def split: if_splits)
next
  fix n w show "zeval \<sigma> (Z3_bv_val n w) = VBv w (unat (take_bit w n))" by simp
qed

lemma lower_batch_lowered:
  "lower_batch env current new s = Inr (Some new', s') \<Longrightarrow>
     set (solver s) \<subseteq> set (solver s') \<and>
     (\<forall>c\<in>set current. \<exists>t cs. visit_bool (width env) c = Inr (t, cs, []) \<and> t \<in> set (solver s'))"
proof (induction current arbitrary: new s)
  case Nil
  then show ?case by simp
next
  case (Cons it rest)
  from Cons.prems obtain s1 constraint cs where
    ca: "check_abort env s = (False, s1)" and
    v: "visit_bool (width env) it = Inr (constraint, cs, [])" and
    r: "lower_batch env rest (new @ cs) (s1\<lparr>solver := solver s1 @ [constraint]\<rparr>) = Inr (Some new', s')"
    by (auto split: prod.splits bool.splits if_splits sum.splits)
  from check_abort_False [OF ca] have "solver s1 = solver s" by simp
  with Cons.IH [OF r] v show ?case by auto
qed

lemma lowering_loop_lowered:
  "lowering_loop env current s = Inr (True, s') \<Longrightarrow>
     set (solver s) \<subseteq> set (solver s') \<and>
     (\<forall>c\<in>set current.
        (\<exists>t cs. visit_bool (width env) c = Inr (t, cs, []) \<and> t \<in> set (solver s')) \<and>
        (\<forall>b\<in>set (sdiv_divisors_bool c).
           \<exists>t cs. visit_bool (width env) (divisor_guard (width env) b) = Inr (t, cs, []) \<and>
                  t \<in> set (solver s')))"
proof (induction env current s rule: lowering_loop.induct)
  case (1 env current s)
  show ?case
  proof (cases "current = []")
    case True
    with "1.prems" show ?thesis by (simp add: lowering_loop.simps)
  next
    case ne: False
    from "1.prems" ne obtain s1 new s2 where
      ca: "check_abort env s = (False, s1)" and
      lb: "lower_batch env current [] s1 = Inr (Some new, s2)" and
      rec: "lowering_loop env new s2 = Inr (True, s')"
      by (auto simp: lowering_loop.simps split: prod.splits bool.splits sum.splits option.splits)
    from check_abort_False [OF ca] have s1: "solver s1 = solver s" by simp
    from lower_batch_lowered [OF lb] have
      sub1: "set (solver s1) \<subseteq> set (solver s2)" and
      low1: "\<forall>c\<in>set current. \<exists>t cs. visit_bool (width env) c = Inr (t, cs, []) \<and> t \<in> set (solver s2)"
      by auto
    have ih: "set (solver s2) \<subseteq> set (solver s') \<and>
      (\<forall>c\<in>set new.
        (\<exists>t cs. visit_bool (width env) c = Inr (t, cs, []) \<and> t \<in> set (solver s')) \<and>
        (\<forall>b\<in>set (sdiv_divisors_bool c).
           \<exists>t cs. visit_bool (width env) (divisor_guard (width env) b) = Inr (t, cs, []) \<and>
                  t \<in> set (solver s')))"
      using "1.IH" [OF ne ca [symmetric] refl lb refl refl rec] .
    have new: "new = concat (map (\<lambda>c. map (divisor_guard (width env)) (sdiv_divisors_bool c)) current)"
      using lower_batch_new [OF lb] by simp
    show ?thesis
    proof (intro conjI ballI)
      show "set (solver s) \<subseteq> set (solver s')" using s1 sub1 ih by auto
    next
      fix c assume "c \<in> set current"
      then show "\<exists>t cs. visit_bool (width env) c = Inr (t, cs, []) \<and> t \<in> set (solver s')"
        using low1 ih by blast
    next
      fix c b assume cb: "c \<in> set current" "b \<in> set (sdiv_divisors_bool c)"
      then have "divisor_guard (width env) b \<in> set new" using new by auto
      then show "\<exists>t cs. visit_bool (width env) (divisor_guard (width env) b) = Inr (t, cs, []) \<and>
                  t \<in> set (solver s')"
        using ih by blast
    qed
  qed
qed

lemma divisors_atoms:
  "set (sdiv_divisors_bool c) = (\<Union>a\<in>set (atoms c). set (sdiv_divisors_bool a))"
  by (induction c rule: atoms.induct) auto

lemma guard_lowering:
  assumes "visit_bool w (divisor_guard w b) = Inr (t, cs, err)"
  shows "\<exists>e err'. visit_bv w b = Inr (e, cs, err') \<and>
           t = Z3_app Z3_mk_not [Z3_app Z3_mk_eq [e, Z3_bv_val 0 (w b)]]"
proof (cases "visit_bv w b")
  case (Inl f)
  with assms show ?thesis
    by (simp add: divisor_guard_def bv_neq_def SymBitVector_constant_def mk_def)
next
  case (Inr v)
  obtain e ds err' where "v = (e, ds, err')" by (cases v)
  with Inr assms show ?thesis
    by (auto simp: divisor_guard_def bv_neq_def SymBitVector_constant_def mk_def split: if_splits)
qed

lemma lower_batch_typechecked:
  "lower_batch env current new s = Inr (Some new', s') \<Longrightarrow> \<forall>c\<in>set current. tc env c = 1"
proof (induction current arbitrary: new s)
  case Nil
  then show ?case by simp
next
  case (Cons it rest)
  from Cons.prems obtain s1 constraint cs where
    "tc env it = 1" and
    r: "lower_batch env rest (new @ cs) (s1\<lparr>solver := solver s1 @ [constraint]\<rparr>) = Inr (Some new', s')"
    by (auto split: prod.splits bool.splits if_splits sum.splits)
  with Cons.IH [OF r] show ?case by simp
qed

lemma lowering_loop_typechecked:
  "lowering_loop env current s = Inr (True, s') \<Longrightarrow>
     \<forall>c\<in>set current. tc env c = 1 \<and>
        (\<forall>b\<in>set (sdiv_divisors_bool c). tc env (divisor_guard (width env) b) = 1)"
proof (induction env current s rule: lowering_loop.induct)
  case (1 env current s)
  show ?case
  proof (cases "current = []")
    case True
    then show ?thesis by simp
  next
    case ne: False
    from "1.prems" ne obtain s1 new s2 where
      ca: "check_abort env s = (False, s1)" and
      lb: "lower_batch env current [] s1 = Inr (Some new, s2)" and
      rec: "lowering_loop env new s2 = Inr (True, s')"
      by (auto simp: lowering_loop.simps split: prod.splits bool.splits sum.splits option.splits)
    have ih: "\<forall>c\<in>set new. tc env c = 1 \<and>
        (\<forall>b\<in>set (sdiv_divisors_bool c). tc env (divisor_guard (width env) b) = 1)"
      using "1.IH" [OF ne ca [symmetric] refl lb refl refl rec] .
    have new: "new = concat (map (\<lambda>c. map (divisor_guard (width env)) (sdiv_divisors_bool c)) current)"
      using lower_batch_new [OF lb] by simp
    show ?thesis
    proof (intro ballI conjI)
      fix c assume "c \<in> set current"
      then show "tc env c = 1" using lower_batch_typechecked [OF lb] by blast
    next
      fix c b assume "c \<in> set current" "b \<in> set (sdiv_divisors_bool c)"
      then have "divisor_guard (width env) b \<in> set new" using new by auto
      then show "tc env (divisor_guard (width env) b) = 1" using ih by blast
    qed
  qed
qed

text \<open>
  C1. The visitor of a signed division pushes the guard of its divisor (the divisor
  differs from the zero literal of the divisor's width) to the pending batch and
  lowers the division to \<^verbatim>\<open>Z3_mk_bvsdiv\<close>. When \<^verbatim>\<open>is_sat\<close> returns true, then for every
  constraint or axiom of the query and every signed division the lowering reaches in
  it, the guard of the divisor passed the typechecker, was lowered by the same
  visitor and is among the asserted terms on which the decision procedure answered
  \<^verbatim>\<open>sat\<close>; hence every valuation of solver terms that
  reads negation, equality and literals in the standard way and satisfies all asserted
  terms gives the lowered divisor a value other than zero.
\<close>

theorem signed_division_divisor_nonzero:
  assumes "is_sat env constraints s0 = Inr (True, s')"
    and "c \<in> set constraints \<union> set (get_axioms env constraints)"
    and "b \<in> set (sdiv_divisors_bool c)"
  shows "(\<forall>a d. visit_bv (width env) (SymBitVectorSignDiv a d) =
            push_back (divisor_guard (width env) d)
              (mk (Z3_app Z3_mk_bvsdiv) [visit_bv (width env) a, visit_bv (width env) d])) \<and>
         check env (solver s') = Inr sat \<and>
         (\<exists>e cs. visit_bv (width env) b = Inr (e, cs, []) \<and>
            tc env (divisor_guard (width env) b) = 1 \<and>
            visit_bool (width env) (divisor_guard (width env) b) =
              Inr (Z3_app Z3_mk_not [Z3_app Z3_mk_eq [e, Z3_bv_val 0 (width env b)]], cs, []) \<and>
            Z3_app Z3_mk_not [Z3_app Z3_mk_eq [e, Z3_bv_val 0 (width env b)]] \<in> set (solver s') \<and>
            (\<forall>ev. respects_not_eq ev \<and> holds_all ev (solver s') \<longrightarrow>
                  ev e \<noteq> VBv (width env b) 0))"
proof (intro conjI)
  show "check env (solver s') = Inr sat"
    using is_sat_True_solver [OF assms(1)] by blast
next
  show "\<forall>a d. visit_bv (width env) (SymBitVectorSignDiv a d) =
            push_back (divisor_guard (width env) d)
              (mk (Z3_app Z3_mk_bvsdiv) [visit_bv (width env) a, visit_bv (width env) d])"
    by (simp add: Let_def divisor_guard_def)
next
  let ?w = "width env"
  let ?all = "constraints @ get_axioms env constraints"
  from is_sat_True_solver [OF assms(1)] obtain s1 where
    ll: "lowering_loop env (split_constraints ?all) idle = Inr (True, s1)" and
    s1: "solver s1 = solver s'" by blast
  from assms(2,3) obtain a where a: "a \<in> set (split_constraints ?all)" "b \<in> set (sdiv_divisors_bool a)"
    using divisors_atoms [of c] by (auto simp: set_split_constraints)
  from lowering_loop_lowered [OF ll] a obtain t cs where
    t: "visit_bool ?w (divisor_guard ?w b) = Inr (t, cs, [])" "t \<in> set (solver s1)"
    by blast
  from guard_lowering [OF t(1)] obtain e err' where
    e: "visit_bv ?w b = Inr (e, cs, err')" "t = Z3_app Z3_mk_not [Z3_app Z3_mk_eq [e, Z3_bv_val 0 (?w b)]]"
    by blast
  from e(1) visit_effects(1) [of ?w b] have "err' = []" by simp
  have tcg: "tc env (divisor_guard ?w b) = 1"
    using lowering_loop_typechecked [OF ll] a by blast
  have sem: "ev e \<noteq> VBv (?w b) 0" if "respects_not_eq ev \<and> holds_all ev (solver s')" for ev
  proof -
    from that have r1: "\<And>x. ev (Z3_app Z3_mk_not [x]) = VBool True \<Longrightarrow> ev x = VBool False"
      and r2: "\<And>x y. ev (Z3_app Z3_mk_eq [x, y]) = VBool False \<Longrightarrow> ev x \<noteq> ev y"
      and r3: "\<And>n w. ev (Z3_bv_val n w) = VBv w (unat (take_bit w n))"
      unfolding respects_not_eq_def by blast+
    from that t(2) s1 e(2) have "ev (Z3_app Z3_mk_not [Z3_app Z3_mk_eq [e, Z3_bv_val 0 (?w b)]]) = VBool True"
      by (simp add: holds_all_def)
    then have "ev (Z3_app Z3_mk_eq [e, Z3_bv_val 0 (?w b)]) = VBool False"
      by (rule r1)
    then have "ev e \<noteq> ev (Z3_bv_val 0 (?w b))"
      by (rule r2)
    moreover have "ev (Z3_bv_val 0 (?w b)) = VBv (?w b) 0"
      using r3 [of 0 "?w b"] by simp
    ultimately show ?thesis by simp
  qed
  show "\<exists>e cs. visit_bv ?w b = Inr (e, cs, []) \<and>
            tc env (divisor_guard ?w b) = 1 \<and>
            visit_bool ?w (divisor_guard ?w b) =
              Inr (Z3_app Z3_mk_not [Z3_app Z3_mk_eq [e, Z3_bv_val 0 (?w b)]], cs, []) \<and>
            Z3_app Z3_mk_not [Z3_app Z3_mk_eq [e, Z3_bv_val 0 (?w b)]] \<in> set (solver s') \<and>
            (\<forall>ev. respects_not_eq ev \<and> holds_all ev (solver s') \<longrightarrow> ev e \<noteq> VBv (?w b) 0)"
    using e \<open>err' = []\<close> t s1 tcg sem by auto
qed

lemma quiet_env_simps2 [simp]:
  "tc_error (quiet_env a m i) = (\<lambda>c. None)" "print (quiet_env a m i) = (\<lambda>c. [])"
  by (simp_all add: quiet_env_def)

theorem signed_division_divisor_nonzero_witness:
  "is_sat (quiet_env (Inr sat) (const_model 1) (\<lambda>k. False))
     [SymBoolEq (SymBitVectorSignDiv (SymBitVectorVar ''x'' 8) (SymBitVectorVar ''y'' 8))
        (SymBitVectorConstant 8 1)] idle =
   Inr (True,
        \<lparr>error = [], model = Some (const_model 1), stop_now = False,
         solver =
           [Z3_app Z3_mk_eq
              [Z3_app Z3_mk_bvsdiv [Z3_mk_const ''x'' (bv_sort 8), Z3_mk_const ''y'' (bv_sort 8)],
               Z3_bv_val 1 8],
            Z3_app Z3_mk_not [Z3_app Z3_mk_eq [Z3_mk_const ''y'' (bv_sort 8), Z3_bv_val 0 8]]],
         polls = 5\<rparr>) \<and>
   SymBitVectorVar ''y'' 8 \<in> set (sdiv_divisors_bool
     (SymBoolEq (SymBitVectorSignDiv (SymBitVectorVar ''x'' 8) (SymBitVectorVar ''y'' 8))
        (SymBitVectorConstant 8 1))) \<and>
   respects_not_eq (zeval (\<lambda>x. 1)) \<and>
   holds_all (zeval (\<lambda>x. 1))
     [Z3_app Z3_mk_eq
        [Z3_app Z3_mk_bvsdiv [Z3_mk_const ''x'' (bv_sort 8), Z3_mk_const ''y'' (bv_sort 8)],
         Z3_bv_val 1 8],
      Z3_app Z3_mk_not [Z3_app Z3_mk_eq [Z3_mk_const ''y'' (bv_sort 8), Z3_bv_val 0 8]]] \<and>
   zeval (\<lambda>x. 1) (Z3_mk_const ''y'' (bv_sort 8)) \<noteq> VBv 8 0"
proof -
  let ?env = "quiet_env (Inr sat) (const_model 1) (\<lambda>k. False)"
  let ?c = "SymBoolEq (SymBitVectorSignDiv (SymBitVectorVar ''x'' 8) (SymBitVectorVar ''y'' 8))
        (SymBitVectorConstant 8 1)"
  let ?ts = "[Z3_app Z3_mk_eq
        [Z3_app Z3_mk_bvsdiv [Z3_mk_const ''x'' (bv_sort 8), Z3_mk_const ''y'' (bv_sort 8)],
         Z3_bv_val 1 8],
      Z3_app Z3_mk_not [Z3_app Z3_mk_eq [Z3_mk_const ''y'' (bv_sort 8), Z3_bv_val 0 8]]]"
  let ?s = "\<lparr>error = [], model = Some (const_model 1), stop_now = False, solver = ?ts, polls = 5\<rparr>"
  have run: "is_sat ?env [?c] idle = Inr (True, ?s)"
    by (simp add: run_defs idle_def bv_neq_def SymBitVector_constant_def)
  have mem: "?c \<in> set [?c] \<union> set (get_axioms ?env [?c])" by simp
  have div: "SymBitVectorVar ''y'' 8 \<in> set (sdiv_divisors_bool ?c)" by simp
  have resp: "respects_not_eq (zeval (\<lambda>x. 1))" by (rule zeval_respects)
  have sat: "holds_all (zeval (\<lambda>x. 1)) ?ts"
    by (simp add: holds_all_def apply_op_def bv_binary_def bv_sdiv_def Z3_bv2int_def)
  from signed_division_divisor_nonzero [OF run mem div]
  obtain e cs where e: "visit_bv (width ?env) (SymBitVectorVar ''y'' 8) = Inr (e, cs, [])"
    and nz: "\<forall>ev. respects_not_eq ev \<and> holds_all ev (solver ?s) \<longrightarrow>
                  ev e \<noteq> VBv (width ?env (SymBitVectorVar ''y'' 8)) 0"
    by blast
  from e have "e = Z3_mk_const ''y'' (bv_sort 8)" by simp
  with nz resp sat have "zeval (\<lambda>x. 1) (Z3_mk_const ''y'' (bv_sort 8)) \<noteq> VBv 8 0"
    by auto
  with run div resp sat show ?thesis by blast
qed

subsection \<open>Quantifiers\<close>

lemma is_sat_True_lowered:
  assumes "is_sat env constraints s0 = Inr (True, s')" "c \<in> set constraints" "\<not> is_AND c"
  shows "\<not> isl (visit_bool (width env) c)"
proof -
  let ?all = "constraints @ get_axioms env constraints"
  from is_sat_True_solver [OF assms(1)] obtain s1 where
    ll: "lowering_loop env (split_constraints ?all) idle = Inr (True, s1)" by blast
  from assms(2,3) have "c \<in> set (split_constraints ?all)"
    by (auto simp: split_constraints_shape)
  with lowering_loop_lowered [OF ll] show ?thesis by force
qed

text \<open>
  The visitor of a universal quantification, for every arity. Over one, two or three
  bound variables a body that lowers gives the solver's quantifier over exactly those
  variables. With four or more bound variables the visitor never returns a term: it
  ends in the failing assertion (or in the fatal error of the body, met first). Such a
  node among the constraints therefore never lets \<^verbatim>\<open>is_sat\<close> answer true, and a query
  that consists of it, passes the typechecker and is not interrupted is cut off
  instead of returning.
\<close>

lemma forall_lowering_up_to_three:
  "(length vars \<in> {1, 2, 3} \<longrightarrow>
      (\<forall>inside cs err. visit_bool w a = Inr (inside, cs, err) \<longrightarrow>
         visit_bool w (SymBoolForAll a vars) =
           Inr (Z3_forall (map (\<lambda>(nm, sz). Z3_mk_const nm (bv_sort sz)) vars) inside, cs, err))) \<and>
   (4 \<le> length vars \<longrightarrow>
      isl (visit_bool w (SymBoolForAll a vars)) \<and>
      (\<not> isl (visit_bool w a) \<longrightarrow> visit_bool w (SymBoolForAll a vars) = Inl Assertion_failed) \<and>
      (\<forall>env constraints s0 s'. SymBoolForAll a vars \<in> set constraints \<longrightarrow>
         is_sat env constraints s0 \<noteq> Inr (True, s')) \<and>
      (\<forall>env s0. tc env (SymBoolForAll a vars) = 1 \<and> get_axioms env [SymBoolForAll a vars] = [] \<and>
                \<not> interrupt env 0 \<and> \<not> interrupt env 1 \<longrightarrow>
         isl (is_sat env [SymBoolForAll a vars] s0)))"
proof (intro conjI impI allI)
  fix inside cs err
  assume n: "length vars \<in> {1, 2, 3}" and v: "visit_bool w a = Inr (inside, cs, err)"
  from n consider "length vars = 1" | "length vars = 2" | "length vars = 3" by auto
  then show "visit_bool w (SymBoolForAll a vars) =
           Inr (Z3_forall (map (\<lambda>(nm, sz). Z3_mk_const nm (bv_sort sz)) vars) inside, cs, err)"
  proof cases
    case 1
    then obtain x where "vars = [x]" by (cases vars) auto
    with v show ?thesis by (simp add: Let_def)
  next
    case 2
    then obtain x y where "vars = [x, y]"
      by (cases vars; cases "tl vars") auto
    with v show ?thesis by (simp add: Let_def)
  next
    case 3
    then obtain x y z where "vars = [x, y, z]"
      by (cases vars; cases "tl vars"; cases "tl (tl vars)") auto
    with v show ?thesis by (simp add: Let_def)
  qed
next
  assume n: "4 \<le> length vars"
  then show f: "isl (visit_bool w (SymBoolForAll a vars))"
    by (auto simp: Let_def split: sum.splits)
  from n show "visit_bool w (SymBoolForAll a vars) = Inl Assertion_failed"
    if "\<not> isl (visit_bool w a)" using that
    by (auto simp: Let_def split: sum.splits)
next
  fix env :: collaborators and constraints and s0 s' :: z3solver
  assume n: "4 \<le> length vars" and m: "SymBoolForAll a vars \<in> set constraints"
  have "isl (visit_bool (width env) (SymBoolForAll a vars))"
    using n by (auto simp: Let_def split: sum.splits)
  then show "is_sat env constraints s0 \<noteq> Inr (True, s')"
    using is_sat_True_lowered [of env constraints s0 s' "SymBoolForAll a vars"] m by auto
next
  fix env :: collaborators and s0 :: z3solver
  assume n: "4 \<le> length vars"
    and h: "tc env (SymBoolForAll a vars) = 1 \<and> get_axioms env [SymBoolForAll a vars] = [] \<and>
                \<not> interrupt env 0 \<and> \<not> interrupt env 1"
  have "isl (visit_bool (width env) (SymBoolForAll a vars))"
    using n by (auto simp: Let_def split: sum.splits)
  then obtain f where f: "visit_bool (width env) (SymBoolForAll a vars) = Inl f"
    by (cases "visit_bool (width env) (SymBoolForAll a vars)") auto
  have "is_sat env [SymBoolForAll a vars] s0 = Inl f"
    using h f
    by (simp add: is_sat_def reset_state_def split_constraints_foldl lowering_loop.simps
        check_abort_def Let_def del: visit_bool.simps)
  then show "isl (is_sat env [SymBoolForAll a vars] s0)" by simp
qed

text \<open>
  C7. The quantifier over two bound variables is lowered to the solver's quantifier. The
  quantifier over four bound variables is not flagged the way \<^verbatim>\<open>is_sat\<close> reports a
  failure, which is a return of false with a text in the error slot (so the same query
  is answered when the typechecker rejects it): the visitor writes nothing to the
  error slot and stops in \<^verbatim>\<open>assert(false)\<close>, and the call of \<^verbatim>\<open>is_sat\<close> on the query
  ends there without a result and without a report.
\<close>

theorem forall_four_variables_not_reported:
  "visit_bool (\<lambda>b. 8) (SymBoolForAll (SymBoolVar ''p'') [(''x'', 8), (''y'', 16)]) =
     Inr (Z3_forall [Z3_mk_const ''x'' (bv_sort 8), Z3_mk_const ''y'' (bv_sort 16)]
            (Z3_mk_const ''p'' bool_sort), [], []) \<and>
   visit_bool (\<lambda>b. 8) (SymBoolForAll (SymBoolVar ''p'')
       [(''x'', 8), (''y'', 8), (''z'', 8), (''u'', 8)]) = Inl Assertion_failed \<and>
   is_sat (quiet_env (Inr sat) (const_model 0) (\<lambda>k. False))
     [SymBoolForAll (SymBoolVar ''p'') [(''x'', 8), (''y'', 8), (''z'', 8), (''u'', 8)]] idle
     = Inl Assertion_failed \<and>
   is_sat ((quiet_env (Inr sat) (const_model 0) (\<lambda>k. False))\<lparr>tc := \<lambda>c. 0\<rparr>)
     [SymBoolForAll (SymBoolVar ''p'') [(''x'', 8), (''y'', 8), (''z'', 8), (''u'', 8)]] idle
     = Inr (False,
            \<lparr>error = ''Typechecking failed for constraint: '' @ endl @
                      ''(no typechecking error message given)'' @ endl,
             model = None, stop_now = False, solver = [], polls = 2\<rparr>)"
  by (simp add: run_defs idle_def quiet_env_def typecheck_message_def)

subsection \<open>Operators without a guard\<close>

lemma visit_bool_pushed:
  "visit_bool w c = Inr (t, cs, err) \<Longrightarrow> cs = map (divisor_guard w) (sdiv_divisors_bool c)"
  using visit_effects(2) [of w c] by simp

lemma visit_bv_pushed:
  "visit_bv w b = Inr (t, cs, err) \<Longrightarrow> cs = map (divisor_guard w) (sdiv_divisors_bv b)"
  using visit_effects(1) [of w b] by simp

text \<open>
  C9. The visitors of unsigned division, unsigned remainder and signed remainder map
  the node to the solver's operator over the lowered operands and push nothing of their
  own: what a visit pushes is exactly the guards of the signed divisions it reaches,
  so these three nodes add only what their operands push, and a constraint without
  a signed division pushes nothing. A query that uses the three operators with a zero
  divisor is asserted as it stands, and a valuation that gives the divisor zero
  satisfies everything asserted.
\<close>

theorem only_signed_division_guarded:
  "visit_bv w (SymBitVectorDiv a b) = mk (Z3_app Z3_mk_bvudiv) [visit_bv w a, visit_bv w b] \<and>
   visit_bv w (SymBitVectorMod a b) = mk (Z3_app Z3_mk_bvurem) [visit_bv w a, visit_bv w b] \<and>
   visit_bv w (SymBitVectorSignMod a b) = mk (Z3_app Z3_mk_bvsrem) [visit_bv w a, visit_bv w b] \<and>
   (\<forall>t cs err. visit_bool w c = Inr (t, cs, err) \<longrightarrow>
      cs = map (divisor_guard w) (sdiv_divisors_bool c)) \<and>
   (\<forall>node \<in> {SymBitVectorDiv a b, SymBitVectorMod a b, SymBitVectorSignMod a b}.
      \<forall>t cs err. visit_bv w node = Inr (t, cs, err) \<longrightarrow>
        cs = map (divisor_guard w) (sdiv_divisors_bv a @ sdiv_divisors_bv b)) \<and>
   (sdiv_divisors_bool c = [] \<longrightarrow> (\<forall>t cs err. visit_bool w c = Inr (t, cs, err) \<longrightarrow> cs = [])) \<and>
   (\<exists>s'. is_sat (quiet_env (Inr sat) (const_model 0) (\<lambda>k. False))
            [SymBoolEq (SymBitVectorDiv (SymBitVectorVar ''x'' 8) (SymBitVectorVar ''y'' 8))
               (SymBitVectorConstant 8 255),
             SymBoolEq (SymBitVectorMod (SymBitVectorVar ''x'' 8) (SymBitVectorVar ''y'' 8))
               (SymBitVectorVar ''x'' 8),
             SymBoolEq (SymBitVectorSignMod (SymBitVectorVar ''x'' 8) (SymBitVectorVar ''y'' 8))
               (SymBitVectorVar ''x'' 8)] idle = Inr (True, s') \<and>
          solver s' =
            [Z3_app Z3_mk_eq
               [Z3_app Z3_mk_bvudiv [Z3_mk_const ''x'' (bv_sort 8), Z3_mk_const ''y'' (bv_sort 8)],
                Z3_bv_val 255 8],
             Z3_app Z3_mk_eq
               [Z3_app Z3_mk_bvurem [Z3_mk_const ''x'' (bv_sort 8), Z3_mk_const ''y'' (bv_sort 8)],
                Z3_mk_const ''x'' (bv_sort 8)],
             Z3_app Z3_mk_eq
               [Z3_app Z3_mk_bvsrem [Z3_mk_const ''x'' (bv_sort 8), Z3_mk_const ''y'' (bv_sort 8)],
                Z3_mk_const ''x'' (bv_sort 8)]] \<and>
          holds_all (zeval (\<lambda>x. 0)) (solver s') \<and>
          zeval (\<lambda>x. 0) (Z3_mk_const ''y'' (bv_sort 8)) = VBv 8 0)"
proof (intro conjI)
  show "\<forall>t cs err. visit_bool w c = Inr (t, cs, err) \<longrightarrow>
      cs = map (divisor_guard w) (sdiv_divisors_bool c)"
    using visit_bool_pushed by blast
  show "\<forall>node \<in> {SymBitVectorDiv a b, SymBitVectorMod a b, SymBitVectorSignMod a b}.
      \<forall>t cs err. visit_bv w node = Inr (t, cs, err) \<longrightarrow>
        cs = map (divisor_guard w) (sdiv_divisors_bv a @ sdiv_divisors_bv b)"
  proof (intro ballI allI impI)
    fix node t cs err
    assume "node \<in> {SymBitVectorDiv a b, SymBitVectorMod a b, SymBitVectorSignMod a b}"
      and "visit_bv w node = Inr (t, cs, err)"
    then show "cs = map (divisor_guard w) (sdiv_divisors_bv a @ sdiv_divisors_bv b)"
      using visit_bv_pushed [of w node t cs err] by auto
  qed
  show "sdiv_divisors_bool c = [] \<longrightarrow> (\<forall>t cs err. visit_bool w c = Inr (t, cs, err) \<longrightarrow> cs = [])"
    using visit_bool_pushed [of w c] by auto
  show "\<exists>s'. is_sat (quiet_env (Inr sat) (const_model 0) (\<lambda>k. False))
            [SymBoolEq (SymBitVectorDiv (SymBitVectorVar ''x'' 8) (SymBitVectorVar ''y'' 8))
               (SymBitVectorConstant 8 255),
             SymBoolEq (SymBitVectorMod (SymBitVectorVar ''x'' 8) (SymBitVectorVar ''y'' 8))
               (SymBitVectorVar ''x'' 8),
             SymBoolEq (SymBitVectorSignMod (SymBitVectorVar ''x'' 8) (SymBitVectorVar ''y'' 8))
               (SymBitVectorVar ''x'' 8)] idle = Inr (True, s') \<and>
          solver s' =
            [Z3_app Z3_mk_eq
               [Z3_app Z3_mk_bvudiv [Z3_mk_const ''x'' (bv_sort 8), Z3_mk_const ''y'' (bv_sort 8)],
                Z3_bv_val 255 8],
             Z3_app Z3_mk_eq
               [Z3_app Z3_mk_bvurem [Z3_mk_const ''x'' (bv_sort 8), Z3_mk_const ''y'' (bv_sort 8)],
                Z3_mk_const ''x'' (bv_sort 8)],
             Z3_app Z3_mk_eq
               [Z3_app Z3_mk_bvsrem [Z3_mk_const ''x'' (bv_sort 8), Z3_mk_const ''y'' (bv_sort 8)],
                Z3_mk_const ''x'' (bv_sort 8)]] \<and>
          holds_all (zeval (\<lambda>x. 0)) (solver s') \<and>
          zeval (\<lambda>x. 0) (Z3_mk_const ''y'' (bv_sort 8)) = VBv 8 0"
    by (simp add: run_defs idle_def holds_all_def apply_op_def bv_binary_def bv_udiv_def
        bv_urem_def bv_srem_def Z3_bv2int_def)
qed simp_all

theorem only_signed_division_guarded_witness:
  "visit_bool (\<lambda>b. 8)
     (SymBoolEq (SymBitVectorDiv (SymBitVectorVar ''x'' 8) (SymBitVectorVar ''y'' 8))
        (SymBitVectorConstant 8 255)) =
   Inr (Z3_app Z3_mk_eq
          [Z3_app Z3_mk_bvudiv [Z3_mk_const ''x'' (bv_sort 8), Z3_mk_const ''y'' (bv_sort 8)],
           Z3_bv_val 255 8], [], []) \<and>
   sdiv_divisors_bool
     (SymBoolEq (SymBitVectorDiv (SymBitVectorVar ''x'' 8) (SymBitVectorVar ''y'' 8))
        (SymBitVectorConstant 8 255)) = [] \<and>
   ([] :: symbool list) = map (divisor_guard (\<lambda>b. 8)) []"
proof -
  let ?c = "SymBoolEq (SymBitVectorDiv (SymBitVectorVar ''x'' 8) (SymBitVectorVar ''y'' 8))
        (SymBitVectorConstant 8 255)"
  have v: "visit_bool (\<lambda>b. 8) ?c =
     Inr (Z3_app Z3_mk_eq
          [Z3_app Z3_mk_bvudiv [Z3_mk_const ''x'' (bv_sort 8), Z3_mk_const ''y'' (bv_sort 8)],
           Z3_bv_val 255 8], [], [])"
    by (simp add: mk_def)
  have d: "sdiv_divisors_bool ?c = []" by simp
  from only_signed_division_guarded [of "\<lambda>b. 8" _ _ ?c] v d
  have "([] :: symbool list) = map (divisor_guard (\<lambda>b. 8)) (sdiv_divisors_bool ?c)"
    by blast
  with v d show ?thesis by simp
qed

subsection \<open>Array decoding\<close>

lemma record_pair_literals:
  "record_pair (Z3_bv_val k kb) (Z3_bv_val v vb) M =
     (if fits_byte vb v then Inr (M(take_bit kb k \<mapsto> byte_value (take_bit vb v)))
      else Inl Assertion_failed)"
  by (simp add: record_pair_def fits_byte_def)

lemma peel_stores_base:
  "decl_kind base = Inr kind \<Longrightarrow> kind \<noteq> Some Z3_mk_store \<Longrightarrow> peel_stores base M = Inr (base, M)"
  by (cases base) auto

lemma map_of_rev_snoc: "map_of (rev xs @ [(a, b)]) = (map_of [(a, b)]) ++ map_of (rev xs)"
  by (simp add: map_add_def fun_eq_iff split: option.splits)

lemma peel_stores_chain:
  assumes "decl_kind base = Inr kind" "kind \<noteq> Some Z3_mk_store"
  shows "peel_stores (store_chain kb vb us base) M =
     (if \<forall>(k, v)\<in>set us. fits_byte vb v
      then Inr (base, M ++ map_of (rev (read_pairs kb vb us)))
      else Inl Assertion_failed)"
proof (induction us arbitrary: M)
  case Nil
  show ?case using peel_stores_base [OF assms] by (simp add: read_pairs_def)
next
  case (Cons u us)
  obtain k v where u: "u = (k, v)" by (cases u)
  show ?case
  proof (cases "fits_byte vb v")
    case False
    then show ?thesis by (simp add: u record_pair_literals)
  next
    case True
    have "(M(take_bit kb k \<mapsto> byte_value (take_bit vb v))) ++ map_of (rev (read_pairs kb vb us)) =
          M ++ map_of (rev (read_pairs kb vb ((k, v) # us)))"
      by (auto simp: read_pairs_def map_add_def fun_eq_iff split: option.splits)
    with True show ?thesis by (simp add: u record_pair_literals Cons.IH)
  qed
qed

lemma map_of_rev_distinct: "distinct (map fst xs) \<Longrightarrow> map_of (rev xs) = map_of xs"
  by (rule map_of_inject_set [THEN iffD2]) (simp_all add: distinct_rev rev_map [symmetric])

lemma get_model_array_chain:
  assumes "model s = Some m"
    and "array_value m var kb vb = store_chain kb vb us base"
    and "decl_kind base = Inr kind" and "kind \<noteq> Some Z3_mk_store"
    and "0 < kb" "0 < vb"
  shows "get_model_array env s var kb vb =
     (if \<forall>(k, v)\<in>set us. fits_byte vb v
      then
        (if kind = Some Z3_OP_CONST_ARRAY then
           (case arg base 0 of
              Inl f \<Rightarrow> Inl f
            | Inr a \<Rightarrow>
                (case Z3_get_numeral_uint64 a of
                   Inl f \<Rightarrow> Inl f
                 | Inr val \<Rightarrow>
                     if \<not> val \<le> 0xff then Inl Assertion_failed
                     else Inr ((map_of (rev (read_pairs kb vb us)), ucast val), [])))
         else
           (case Option.bind kind as_array_decl of
              Some model_fd \<Rightarrow>
                (let fun_interp = get_func_interp m model_fd in
                 case func_entries (entries fun_interp) (map_of (rev (read_pairs kb vb us))) of
                   Inl f \<Rightarrow> Inl f
                 | Inr addr_val_map' \<Rightarrow>
                     Inr ((addr_val_map', expr_to_uint8 env (else_value fun_interp)), []))
            | None \<Rightarrow>
                Inr ((map_of (rev (read_pairs kb vb us)), 0),
                     (if kind = Some Z3_OP_ARRAY_MAP
                      then [''[z3] Don't know how to handle Z3_OP_ARRAY_MAP'']
                      else []) @
                     [''[z3] Couldn't parse Z3's AST for array model; may have spurious CEG. ''])))
      else Inl Assertion_failed)"
  using assms
  by (simp add: get_model_array_def peel_stores_chain [OF assms(3,4)])

text \<open>
  C5. When the model gives an array variable (of positive key and value width) a store
  chain over a constant array, the
  decoder peels the stores from the outside in and records one pair per store; if all
  stored values and the default fit in a byte, it returns the recorded map and the
  default, with no diagnostic. For a set of point updates (one per address) the map
  holds exactly those pairs: every update is found under its address, and an address
  without an update is not in the map, so that the default applies to it. A stored
  value or a default above 255 fails the assertion instead.
\<close>

theorem store_chain_round_trip:
  assumes "model s = Some m"
    and "array_value m var kb vb =
           store_chain kb vb us (Z3_app Z3_OP_CONST_ARRAY [Z3_bv_val d vb])"
    and "0 < kb" and "0 < vb"
  shows "((\<forall>(k, v)\<in>set us. fits_byte vb v) \<and> fits_byte vb d \<longrightarrow>
            get_model_array env s var kb vb =
              Inr ((map_of (rev (read_pairs kb vb us)), ucast (take_bit vb d)), []) \<and>
            (\<forall>a. a \<notin> fst ` set (read_pairs kb vb us) \<longrightarrow>
                 map_of (rev (read_pairs kb vb us)) a = None) \<and>
            (distinct (map fst (read_pairs kb vb us)) \<longrightarrow>
               (\<forall>(a, b)\<in>set (read_pairs kb vb us).
                  map_of (rev (read_pairs kb vb us)) a = Some b))) \<and>
         (\<not> ((\<forall>(k, v)\<in>set us. fits_byte vb v) \<and> fits_byte vb d) \<longrightarrow>
            get_model_array env s var kb vb = Inl Assertion_failed)"
proof -
  let ?base = "Z3_app Z3_OP_CONST_ARRAY [Z3_bv_val d vb]"
  have k: "decl_kind ?base = Inr (Some Z3_OP_CONST_ARRAY)" "Some Z3_OP_CONST_ARRAY \<noteq> Some Z3_mk_store"
    by simp_all
  have run: "get_model_array env s var kb vb =
     (if \<forall>(k, v)\<in>set us. fits_byte vb v
      then (if fits_byte vb d
            then Inr ((map_of (rev (read_pairs kb vb us)), ucast (take_bit vb d)), [])
            else Inl Assertion_failed)
      else Inl Assertion_failed)"
    by (simp add: get_model_array_chain [OF assms(1,2) k assms(3,4)] fits_byte_def)
  have none: "map_of (rev (read_pairs kb vb us)) a = None"
    if "a \<notin> fst ` set (read_pairs kb vb us)" for a
    using that by (simp add: map_of_eq_None_iff)
  have some: "map_of (rev (read_pairs kb vb us)) a = Some b"
    if "distinct (map fst (read_pairs kb vb us))" "(a, b) \<in> set (read_pairs kb vb us)" for a b
    using that by (simp add: map_of_rev_distinct)
  show ?thesis
    using run none some by auto
qed

theorem store_chain_round_trip_witness:
  "model (idle\<lparr>model := Some (array_model
      (store_chain 64 8 [(5, 7), (9, 1)] (Z3_app Z3_OP_CONST_ARRAY [Z3_bv_val 3 8])))\<rparr>) =
     Some (array_model
      (store_chain 64 8 [(5, 7), (9, 1)] (Z3_app Z3_OP_CONST_ARRAY [Z3_bv_val 3 8]))) \<and>
   fits_byte 8 7 \<and> fits_byte 8 1 \<and> fits_byte 8 3 \<and>
   get_model_array (quiet_env (Inr sat) (const_model 0) (\<lambda>k. False))
     (idle\<lparr>model := Some (array_model
        (store_chain 64 8 [(5, 7), (9, 1)] (Z3_app Z3_OP_CONST_ARRAY [Z3_bv_val 3 8])))\<rparr>)
     ''mem'' 64 8 =
     Inr ((map_of [(9, \<lparr>num_bits = 8, fixed_bytes = [1]\<rparr>), (5, \<lparr>num_bits = 8, fixed_bytes = [7]\<rparr>)],
           3), []) \<and>
   \<not> fits_byte 16 300 \<and>
   get_model_array (quiet_env (Inr sat) (const_model 0) (\<lambda>k. False))
     (idle\<lparr>model := Some (array_model
        (store_chain 64 16 [(5, 300)] (Z3_app Z3_OP_CONST_ARRAY [Z3_bv_val 3 16])))\<rparr>)
     ''mem'' 64 16 = Inl Assertion_failed"
proof -
  let ?env = "quiet_env (Inr sat) (const_model 0) (\<lambda>k. False)"
  let ?e = "store_chain 64 8 [(5, 7), (9, 1)] (Z3_app Z3_OP_CONST_ARRAY [Z3_bv_val 3 8])"
  let ?s = "idle\<lparr>model := Some (array_model ?e)\<rparr>"
  let ?e' = "store_chain 64 16 [(5, 300)] (Z3_app Z3_OP_CONST_ARRAY [Z3_bv_val 3 16])"
  let ?s' = "idle\<lparr>model := Some (array_model ?e')\<rparr>"
  have m: "model ?s = Some (array_model ?e)" by simp
  have a: "array_value (array_model ?e) ''mem'' 64 8 = ?e" by (simp add: array_model_def)
  have f: "fits_byte 8 7" "fits_byte 8 1" "fits_byte 8 3" by (simp_all add: fits_byte_def)
  have m': "model ?s' = Some (array_model ?e')" by simp
  have a': "array_value (array_model ?e') ''mem'' 64 16 = ?e'" by (simp add: array_model_def)
  have nf: "\<not> fits_byte 16 300" by (simp add: fits_byte_def)
  have r: "get_model_array ?env ?s ''mem'' 64 8 =
      Inr ((map_of (rev (read_pairs 64 8 [(5, 7), (9, 1)])), ucast (take_bit 8 (3 :: 64 word))), [])"
    using store_chain_round_trip [OF m a, of ?env] f by simp
  have r': "get_model_array ?env ?s' ''mem'' 64 16 = Inl Assertion_failed"
    using store_chain_round_trip [OF m' a', of ?env] nf by simp
  have "get_model_array ?env ?s ''mem'' 64 8 =
     Inr ((map_of [(9, \<lparr>num_bits = 8, fixed_bytes = [1]\<rparr>), (5, \<lparr>num_bits = 8, fixed_bytes = [7]\<rparr>)],
           3), [])"
    using r by (simp add: read_pairs_def byte_value_def)
  with m f nf r' show ?thesis by simp
qed

text \<open>
  C6, as stated, fails: the fallback returns the map as it stands after peeling, and
  that map is empty only when nothing was peeled. A store of 7 at address 5 over a
  map-combinator base decodes to a map that holds the pair.
\<close>

theorem unparsed_array_empty_counterexample:
  "get_model_array (quiet_env (Inr sat) (const_model 0) (\<lambda>k. False))
     (idle\<lparr>model := Some (array_model
        (store_chain 64 8 [(5, 7)] (Z3_app Z3_OP_ARRAY_MAP [])))\<rparr>)
     ''mem'' 64 8 =
     Inr (([5 \<mapsto> \<lparr>num_bits = 8, fixed_bytes = [7]\<rparr>], 0),
          [''[z3] Don't know how to handle Z3_OP_ARRAY_MAP'',
           ''[z3] Couldn't parse Z3's AST for array model; may have spurious CEG. '']) \<and>
   [(5 :: 64 word) \<mapsto> \<lparr>num_bits = 8, fixed_bytes = [7 :: 8 word]\<rparr>] \<noteq> Map.empty"
  by (simp add: get_model_array_def array_model_def idle_def record_pair_def byte_value_def)

text \<open>
  C6, amended. When what is left after peeling the stores is a map combinator or any
  shape other than a constant array or a function wrapper, the decoder does not fail:
  it writes its diagnostic and returns, with default byte zero, the pairs it recorded
  while peeling. The mapping is empty when the expression was no store chain.
\<close>

theorem unparsed_array_keeps_recorded_pairs:
  assumes "model s = Some m"
    and "array_value m var kb vb = store_chain kb vb us base"
    and "\<forall>(k, v)\<in>set us. fits_byte vb v"
    and "decl_kind base = Inr kind"
    and "kind \<noteq> Some Z3_mk_store" and "kind \<noteq> Some Z3_OP_CONST_ARRAY"
    and "Option.bind kind as_array_decl = None"
    and "0 < kb" and "0 < vb"
  shows "get_model_array env s var kb vb =
           Inr ((map_of (rev (read_pairs kb vb us)), 0),
                (if kind = Some Z3_OP_ARRAY_MAP
                 then [''[z3] Don't know how to handle Z3_OP_ARRAY_MAP'']
                 else []) @
                [''[z3] Couldn't parse Z3's AST for array model; may have spurious CEG. '']) \<and>
         (us = [] \<longrightarrow> map_of (rev (read_pairs kb vb us)) = Map.empty)"
  using assms(3,6,7)
  by (simp add: get_model_array_chain [OF assms(1,2,4,5,8,9)] read_pairs_def)

theorem unparsed_array_keeps_recorded_pairs_witness:
  "decl_kind (Z3_app Z3_OP_ARRAY_MAP []) = Inr (Some Z3_OP_ARRAY_MAP) \<and>
   Option.bind (Some Z3_OP_ARRAY_MAP) as_array_decl = None \<and>
   fits_byte 8 7 \<and>
   get_model_array (quiet_env (Inr sat) (const_model 0) (\<lambda>k. False))
     (idle\<lparr>model := Some (array_model (store_chain 64 8 [] (Z3_mk_const ''mem'' (array_sort (bv_sort 64) (bv_sort 8)))))\<rparr>)
     ''mem'' 64 8 =
     Inr ((Map.empty, 0),
          [''[z3] Couldn't parse Z3's AST for array model; may have spurious CEG. '']) \<and>
   get_model_array (quiet_env (Inr sat) (const_model 0) (\<lambda>k. False))
     (idle\<lparr>model := Some (array_model (store_chain 64 8 [(5, 7)] (Z3_app Z3_OP_ARRAY_MAP [])))\<rparr>)
     ''mem'' 64 8 =
     Inr ((map_of [(5, \<lparr>num_bits = 8, fixed_bytes = [7]\<rparr>)], 0),
          [''[z3] Don't know how to handle Z3_OP_ARRAY_MAP'',
           ''[z3] Couldn't parse Z3's AST for array model; may have spurious CEG. ''])"
proof -
  let ?env = "quiet_env (Inr sat) (const_model 0) (\<lambda>k. False)"
  let ?b1 = "Z3_mk_const ''mem'' (array_sort (bv_sort 64) (bv_sort 8))"
  let ?e1 = "store_chain 64 8 [] ?b1"
  let ?s1 = "idle\<lparr>model := Some (array_model ?e1)\<rparr>"
  let ?b2 = "Z3_app Z3_OP_ARRAY_MAP []"
  let ?e2 = "store_chain 64 8 [(5, 7)] ?b2"
  let ?s2 = "idle\<lparr>model := Some (array_model ?e2)\<rparr>"
  have f: "fits_byte 8 7" by (simp add: fits_byte_def)
  have r1: "get_model_array ?env ?s1 ''mem'' 64 8 =
      Inr ((map_of (rev (read_pairs 64 8 [])), 0),
          (if None = Some Z3_OP_ARRAY_MAP then [''[z3] Don't know how to handle Z3_OP_ARRAY_MAP''] else []) @
          [''[z3] Couldn't parse Z3's AST for array model; may have spurious CEG. ''])"
    using unparsed_array_keeps_recorded_pairs [of ?s1 "array_model ?e1" "''mem''" 64 8 "[]" ?b1 None ?env]
    by (simp add: array_model_def)
  have r2: "get_model_array ?env ?s2 ''mem'' 64 8 =
      Inr ((map_of (rev (read_pairs 64 8 [(5, 7)])), 0),
          (if Some Z3_OP_ARRAY_MAP = Some Z3_OP_ARRAY_MAP
           then [''[z3] Don't know how to handle Z3_OP_ARRAY_MAP''] else []) @
          [''[z3] Couldn't parse Z3's AST for array model; may have spurious CEG. ''])"
    using unparsed_array_keeps_recorded_pairs [of ?s2 "array_model ?e2" "''mem''" 64 8 "[(5, 7)]" ?b2
        "Some Z3_OP_ARRAY_MAP" ?env] f
    by (simp add: array_model_def)
  from r1 r2 f show ?thesis by (simp add: read_pairs_def byte_value_def)
qed

subsection \<open>Bit-vector decoding\<close>

lemma lt_div_iff: "(x :: nat) < y div k \<longleftrightarrow> k * x + k \<le> y" if "0 < k"
proof -
  have "x < y div k \<longleftrightarrow> Suc x \<le> y div k" by (simp add: Suc_le_eq)
  also have "\<dots> \<longleftrightarrow> Suc x * k \<le> y" using that by (simp add: less_eq_div_iff_mult_less_eq)
  also have "Suc x * k = k * x + k" by (simp add: algebra_simps)
  finally show ?thesis .
qed

lemma octs_bound: "i < (bits + 63) div 64 \<Longrightarrow> 64 * i < (bits :: nat)"
  using lt_div_iff [of 64 i "bits + 63"] by simp

lemma aligned_len: "bits mod 8 = 0 \<Longrightarrow> ((bits :: nat) + 7) div 8 = bits div 8"
proof -
  assume "bits mod 8 = 0"
  then obtain b where "bits = 8 * b" by (auto elim: dvdE simp: mod_eq_0_iff_dvd)
  then show ?thesis by simp
qed

lemma aligned_not_63: "bits mod 8 = 0 \<Longrightarrow> (bits :: nat) mod 64 \<noteq> 63"
proof
  assume a: "bits mod 8 = 0" and b: "bits mod 64 = 63"
  have "bits mod 8 = (bits mod 64) mod 8" by (simp add: mod_mod_cancel)
  with a b show False by simp
qed

lemma full_window_aligned: "(64 * i + 64) mod 8 = (0 :: nat)"
proof -
  have "64 * i + 64 = 8 * (8 * i + 8)" by simp
  then show ?thesis by (metis mod_mult_self1_is_0)
qed

lemma byte_in_window:
  assumes "j < (bits :: nat) div 8"
  shows "j div 8 < (bits + 63) div 64" "8 * (j div 8) \<le> j"
    "8 * j + 8 \<le> min (64 * (j div 8) + 64) bits"
proof -
  from assms have b: "8 * j + 8 \<le> bits" by (simp add: lt_div_iff)
  obtain q r where q: "q = j div 8" and r: "r = j mod 8" by simp
  have j: "j = 8 * q + r" "r < 8" by (simp_all add: q r)
  show "j div 8 < (bits + 63) div 64"
    unfolding q [symmetric] using b j by (simp add: lt_div_iff)
  show "8 * (j div 8) \<le> j" by simp
  show "8 * j + 8 \<le> min (64 * (j div 8) + 64) bits"
    unfolding q [symmetric] using b j by simp
qed

lemma before_last_window:
  assumes "i < (bits + 63) div 64 - 1"
  shows "64 * i + 64 \<le> (bits :: nat)"
proof -
  from assms have "Suc i < (bits + 63) div 64" by simp
  then have "64 * Suc i < bits" by (rule octs_bound)
  then show ?thesis by simp
qed

lemma last_window:
  assumes "bits mod 8 \<noteq> 0" "(bits :: nat) mod 64 \<noteq> 63"
  shows "64 * ((bits + 63) div 64 - 1) < bits" "bits < ((bits + 63) div 64 - 1) * 64 + 63"
proof -
  let ?q = "(bits + 63) div 64"
  have pos: "0 < bits" using assms(1) by (cases bits) auto
  then have q: "0 < ?q" by simp
  then have "?q - 1 < ?q" by simp
  then show lo: "64 * (?q - 1) < bits" by (rule octs_bound)
  have "bits + 63 = 64 * ?q + (bits + 63) mod 64" by simp
  moreover have "(bits + 63) mod 64 < 64" by simp
  ultimately have "bits + 63 < 64 * ?q + 64" by linarith
  then have le: "bits \<le> 64 * (?q - 1) + 64" using q by simp
  have n64: "bits \<noteq> 64 * (?q - 1) + 64"
  proof
    assume "bits = 64 * (?q - 1) + 64"
    then have "bits mod 8 = (64 * (?q - 1) + 64) mod 8" by simp
    then show False using assms(1) full_window_aligned by simp
  qed
  have n63: "bits \<noteq> 64 * (?q - 1) + 63"
  proof
    assume "bits = 64 * (?q - 1) + 63"
    then have "bits mod 64 = (64 * (?q - 1) + 63) mod 64" by simp
    then show False using assms(2) by simp
  qed
  from le n64 n63 show "bits < (?q - 1) * 64 + 63" by simp
qed

lemma div8_mono: "(a :: nat) \<le> b \<Longrightarrow> a div 8 \<le> (b + 7) div 8"
  by (meson div_le_mono le_add1 order_trans)

lemma bit_bv2int:
  assumes "q < w"
  shows "bit (Z3_bv2int w x sg) q = bit (int x) q"
proof -
  have "take_bit w (int x - 2 ^ w) = take_bit w (int x)"
    by (simp add: take_bit_eq_mod)
  then have "bit (take_bit w (int x - 2 ^ w)) q = bit (take_bit w (int x)) q" by simp
  then have "bit (int x - 2 ^ w) q = bit (int x) q"
    using assms by (simp add: bit_take_bit_iff)
  then show ?thesis by (simp add: Z3_bv2int_def)
qed

lemma le_byte_bit: "bit (le_byte v k) n = (n < 8 \<and> bit v (8 * k + n))"
proof -
  have "(v div 2 ^ (8 * k)) mod 256 = take_bit 8 (drop_bit (8 * k) v)"
    by (simp add: take_bit_eq_mod drop_bit_eq_div)
  then show ?thesis
    by (auto simp: le_byte_def bit_of_nat_iff bit_take_bit_iff bit_drop_bit_eq add.commute possible_bit_word)
qed

lemma oct_byte:
  assumes "8 * k + 8 \<le> w" "w \<le> 64"
  shows "(ucast (drop_bit (k * 8) (word_of_int (Z3_bv2int w x True) :: 64 word) AND 0xff) :: 8 word)
         = le_byte x k"
proof (rule bit_word_eqI)
  fix n assume n: "n < LENGTH(8)"
  then have n8: "n < 8" by simp
  have m: "(0xff :: 64 word) = mask 8" by (simp add: mask_eq_exp_minus_1)
  have q: "k * 8 + n < w" "k * 8 + n < 64" using assms n8 by auto
  have "bit (ucast (drop_bit (k * 8) (word_of_int (Z3_bv2int w x True) :: 64 word) AND 0xff) :: 8 word) n
        = bit (Z3_bv2int w x True) (k * 8 + n)"
    using n8 q unfolding m
    by (simp add: bit_ucast_iff bit_and_iff bit_mask_iff bit_drop_bit_eq bit_word_of_int_iff add.commute)
  also have "\<dots> = bit (int x) (k * 8 + n)" using q(1) by (rule bit_bv2int)
  also have "\<dots> = bit x (8 * k + n)" by (simp add: bit_of_nat_iff_bit mult.commute)
  also have "\<dots> = bit (le_byte x k) n" using n8 by (simp add: le_byte_bit)
  finally show "bit (ucast (drop_bit (k * 8) (word_of_int (Z3_bv2int w x True) :: 64 word) AND 0xff) :: 8 word) n
        = bit (le_byte x k) n" .
qed

lemma bv2int_range:
  assumes "x < 2 ^ w" "w \<le> 64"
  shows "- (2 ^ 63) \<le> Z3_bv2int w x True \<and> Z3_bv2int w x True < 2 ^ 63"
proof (cases "0 < w \<and> 2 ^ (w - 1) \<le> x")
  case True
  then have e: "Z3_bv2int w x True = int x - 2 ^ w" by (simp add: Z3_bv2int_def)
  have a: "int x < 2 ^ w" using assms(1) by (metis of_nat_less_iff of_nat_numeral of_nat_power)
  have b: "(2::int) ^ w \<le> 2 ^ 64" using assms(2) by (intro power_increasing) auto
  have c: "(2::int) ^ (w - 1) \<le> int x" using True by (metis of_nat_le_iff of_nat_numeral of_nat_power)
  have d: "(2::int) ^ w = 2 * 2 ^ (w - 1)" using True by (cases w) auto
  have "- (2 ^ 63) \<le> int x - (2::int) ^ w"
  proof -
    have "(2::int) ^ w - 2 ^ (w - 1) = 2 ^ (w - 1)" using d by simp
    moreover have "(2::int) ^ (w - 1) \<le> 2 ^ 63" using assms(2) by (intro power_increasing) auto
    ultimately show ?thesis using c by linarith
  qed
  moreover have "int x - (2::int) ^ w < 2 ^ 63"
  proof -
    have "int x - (2::int) ^ w < 0" using a by linarith
    moreover have "(0::int) < 2 ^ 63" by simp
    ultimately show ?thesis by (rule less_trans)
  qed
  ultimately show ?thesis unfolding e by blast
next
  case False
  then have e: "Z3_bv2int w x True = int x" by (auto simp: Z3_bv2int_def)
  have "x < 2 ^ 63"
  proof (cases "w = 0")
    case True
    with assms show ?thesis by simp
  next
    case w: False
    with False have "x < 2 ^ (w - 1)" by simp
    also have "(2::nat) ^ (w - 1) \<le> 2 ^ 63" using assms(2) by (intro power_increasing) auto
    finally show ?thesis .
  qed
  then have "int x < 2 ^ 63" by (metis of_nat_less_iff of_nat_numeral of_nat_power)
  with e show ?thesis by simp
qed

lemma le_byte_window:
  assumes "8 * k + 8 \<le> w" and that: "8 dvd lo"
  shows "le_byte ((x div 2 ^ lo) mod 2 ^ w) k = le_byte x (lo div 8 + k)"
proof (rule bit_word_eqI)
  fix n assume "n < LENGTH(8)"
  then have n8: "n < 8" by simp
  from that obtain l where l: "lo = 8 * l" by (auto elim: dvdE)
  have "(x div 2 ^ lo) mod 2 ^ w = take_bit w (drop_bit lo x)"
    by (simp add: take_bit_eq_mod drop_bit_eq_div)
  then show "bit (le_byte ((x div 2 ^ lo) mod 2 ^ w) k) n = bit (le_byte x (lo div 8 + k)) n"
    using n8 assms l
    by (auto simp: le_byte_bit bit_take_bit_iff bit_drop_bit_eq algebra_simps)
qed

lemma pack_bytes_result:
  assumes "\<forall>j\<in>set js. j < length (fixed_bytes r)"
  shows "\<exists>r'. pack_bytes i oct js r = Inr r' \<and> num_bits r' = num_bits r \<and>
           length (fixed_bytes r') = length (fixed_bytes r) \<and>
           (\<forall>j<length (fixed_bytes r). fixed_bytes r' ! j =
              (if j \<in> set js then ucast (drop_bit ((j - i * 8) * 8) oct AND 0xff)
               else fixed_bytes r ! j))"
  using assms
proof (induction js arbitrary: r)
  case Nil
  then show ?case by simp
next
  case (Cons j js)
  let ?b = "ucast (drop_bit ((j - i * 8) * 8) oct AND 0xff) :: 8 word"
  let ?r1 = "r\<lparr>fixed_bytes := (fixed_bytes r)[j := ?b]\<rparr>"
  from Cons.prems have j: "j < length (fixed_bytes r)" by simp
  then have s: "set_fixed_byte j ?b r = Inr ?r1" by (simp add: set_fixed_byte_def)
  have "\<forall>j\<in>set js. j < length (fixed_bytes ?r1)" using Cons.prems by simp
  from Cons.IH [OF this] obtain r' where
    r': "pack_bytes i oct js ?r1 = Inr r'" "num_bits r' = num_bits ?r1"
      "length (fixed_bytes r') = length (fixed_bytes ?r1)"
      "\<forall>q<length (fixed_bytes ?r1). fixed_bytes r' ! q =
              (if q \<in> set js then ucast (drop_bit ((q - i * 8) * 8) oct AND 0xff)
               else fixed_bytes ?r1 ! q)"
    by blast
  have "pack_bytes i oct (j # js) r = Inr r'" using s r'(1) by (simp add: Let_def)
  moreover have "\<forall>q<length (fixed_bytes r). fixed_bytes r' ! q =
              (if q \<in> set (j # js) then ucast (drop_bit ((q - i * 8) * 8) oct AND 0xff)
               else fixed_bytes r ! q)"
    using r'(4) j by (auto simp: nth_list_update)
  ultimately show ?case using r'(2,3) by simp
qed

lemma window_step:
  assumes m: "model s = Some m"
    and i: "64 * i < bits" and al: "window_top bits i mod 8 = 0" "window_top bits i = bits \<longrightarrow> bits mod 64 \<noteq> 63"
    and len: "window_top bits i div 8 \<le> length (fixed_bytes r)"
  shows "\<exists>r'. windows s var bits (i # is) r = windows s var bits is r' \<and>
           num_bits r' = num_bits r \<and> length (fixed_bytes r') = length (fixed_bytes r) \<and>
           (\<forall>j<length (fixed_bytes r). fixed_bytes r' ! j =
              (if 8 * i \<le> j \<and> j < window_top bits i div 8 then le_byte (bv_value m var bits) j
               else fixed_bytes r ! j))"
proof -
  let ?x = "bv_value m var bits mod 2 ^ bits"
  let ?hi = "window_top bits i"
  let ?mb = "if i * 64 + 63 > bits then bits - 1 else i * 64 + 63"
  have mb: "?mb + 1 = ?hi"
  proof (cases "i * 64 + 63 > bits")
    case True
    with i show ?thesis by (simp add: window_top_def)
  next
    case False
    then have le: "i * 64 + 63 \<le> bits" by simp
    have "i * 64 + 63 \<noteq> bits"
    proof
      assume e: "i * 64 + 63 = bits"
      then have "window_top bits i = bits" by (simp add: window_top_def)
      moreover from e have "bits mod 64 = 63" by (metis add.commute mod_mult_self3 mod_less numeral_less_iff semiring_norm(76,78,79,81) mult.commute)
      ultimately show False using al(2) by simp
    qed
    with le have "i * 64 + 64 \<le> bits" by simp
    with False show ?thesis by (simp add: window_top_def)
  qed
  have hi_le: "?hi \<le> bits" "64 * i < ?hi" "?hi \<le> 64 * i + 64" using i by (auto simp: window_top_def)
  have mb_lt: "\<not> bits \<le> ?mb" using mb hi_le by linarith
  let ?w = "?mb + 1 - i * 64"
  have w: "?w = ?hi - 64 * i" using mb by (simp add: mult.commute)
  have w64: "?w \<le> 64" "0 < ?w" using w hi_le by auto
  let ?xw = "Z3_extract_value ?mb (i * 64) ?x"
  have xw: "?xw = (?x div 2 ^ (64 * i)) mod 2 ^ ?w"
    by (simp add: Z3_extract_value_def mult.commute)
  have "?xw < 2 ^ ?w" unfolding xw by simp
  from bv2int_range [OF this w64(1)]
  have num: "Z3_get_numeral_int64 (Z3_bv2int ?w ?xw True) = Inr (word_of_int (Z3_bv2int ?w ?xw True))"
    by (simp add: Z3_get_numeral_int64_def)
  let ?oct = "word_of_int (Z3_bv2int ?w ?xw True) :: 64 word"
  have al8: "(?mb + 1) mod 8 = 0" using mb al(1) by simp
  have rng: "[i * 8 ..< (?mb + 1) div 8] = [8 * i ..< ?hi div 8]" using mb by (simp add: mult.commute)
  have "\<forall>j\<in>set [8 * i ..< ?hi div 8]. j < length (fixed_bytes r)" using len by auto
  from pack_bytes_result [OF this, of i ?oct] obtain r' where
    r': "pack_bytes i ?oct [8 * i ..< ?hi div 8] r = Inr r'" "num_bits r' = num_bits r"
      "length (fixed_bytes r') = length (fixed_bytes r)"
      "\<forall>j<length (fixed_bytes r). fixed_bytes r' ! j =
              (if j \<in> set [8 * i ..< ?hi div 8] then ucast (drop_bit ((j - i * 8) * 8) ?oct AND 0xff)
               else fixed_bytes r ! j)"
    by blast
  have step: "windows s var bits (i # is) r = windows s var bits is r'"
    using m mb_lt num al8 r'(1) rng
    by (simp add: Let_def windows.simps del: upt_Suc)
  have bytes: "(ucast (drop_bit ((j - i * 8) * 8) ?oct AND 0xff) :: 8 word) = le_byte (bv_value m var bits) j"
    if j: "8 * i \<le> j" "j < ?hi div 8" for j
  proof -
    let ?k = "j - i * 8"
    have jh: "8 * j + 8 \<le> ?hi" using j(2) al(1) by (metis Suc_leI add.commute mult_Suc_right mult.commute less_mult_imp_div_less linorder_not_less mult_le_mono2 dvd_div_mult_self mod_0_imp_dvd)
    then have k: "8 * ?k + 8 \<le> ?w" using j(1) w by (simp add: algebra_simps)
    have "(ucast (drop_bit (?k * 8) ?oct AND 0xff) :: 8 word) = le_byte ?xw ?k"
      using k w64(1) by (rule oct_byte)
    also have "\<dots> = le_byte ?x ((64 * i) div 8 + ?k)"
      unfolding xw using k by (rule le_byte_window) simp
    also have "(64 * i) div 8 + ?k = j" using j(1) by simp
    also have "le_byte ?x j = le_byte ((bv_value m var bits div 2 ^ 0) mod 2 ^ bits) j" by simp
    also have "\<dots> = le_byte (bv_value m var bits) (0 div 8 + j)"
      using jh hi_le(1) by (intro le_byte_window) auto
    finally show ?thesis by simp
  qed
  have "\<forall>j<length (fixed_bytes r). fixed_bytes r' ! j =
              (if 8 * i \<le> j \<and> j < ?hi div 8 then le_byte (bv_value m var bits) j
               else fixed_bytes r ! j)"
    using r'(4) bytes by auto
  with step r'(2,3) show ?thesis by blast
qed

lemma windows_prefix:
  assumes m: "model s = Some m"
    and ok: "\<forall>i\<in>set is. 64 * i < bits \<and> window_top bits i mod 8 = 0 \<and>
               (window_top bits i = bits \<longrightarrow> bits mod 64 \<noteq> 63) \<and>
               window_top bits i div 8 \<le> length (fixed_bytes r)"
  shows "\<exists>r'. windows s var bits (is @ js) r = windows s var bits js r' \<and>
           num_bits r' = num_bits r \<and> length (fixed_bytes r') = length (fixed_bytes r) \<and>
           (\<forall>j<length (fixed_bytes r). fixed_bytes r' ! j =
              (if \<exists>i\<in>set is. 8 * i \<le> j \<and> j < window_top bits i div 8
               then le_byte (bv_value m var bits) j else fixed_bytes r ! j))"
  using ok
proof (induction "is" arbitrary: r)
  case Nil
  show ?case by (rule exI [of _ r]) simp
next
  case (Cons i "is")
  from Cons.prems have i: "64 * i < bits" "window_top bits i mod 8 = 0"
    "window_top bits i = bits \<longrightarrow> bits mod 64 \<noteq> 63"
    "window_top bits i div 8 \<le> length (fixed_bytes r)" by simp_all
  from window_step [OF m i, of var "is @ js"] obtain r1 where
    r1: "windows s var bits (i # is @ js) r = windows s var bits (is @ js) r1"
      "num_bits r1 = num_bits r" "length (fixed_bytes r1) = length (fixed_bytes r)"
      "\<forall>j<length (fixed_bytes r). fixed_bytes r1 ! j =
              (if 8 * i \<le> j \<and> j < window_top bits i div 8 then le_byte (bv_value m var bits) j
               else fixed_bytes r ! j)"
    by blast
  have "\<forall>i\<in>set is. 64 * i < bits \<and> window_top bits i mod 8 = 0 \<and>
               (window_top bits i = bits \<longrightarrow> bits mod 64 \<noteq> 63) \<and>
               window_top bits i div 8 \<le> length (fixed_bytes r1)"
    using Cons.prems r1(3) by simp
  from Cons.IH [OF this] obtain r' where
    r': "windows s var bits (is @ js) r1 = windows s var bits js r'"
      "num_bits r' = num_bits r1" "length (fixed_bytes r') = length (fixed_bytes r1)"
      "\<forall>j<length (fixed_bytes r1). fixed_bytes r' ! j =
              (if \<exists>i\<in>set is. 8 * i \<le> j \<and> j < window_top bits i div 8
               then le_byte (bv_value m var bits) j else fixed_bytes r1 ! j)"
    by blast
  have "windows s var bits ((i # is) @ js) r = windows s var bits js r'"
    using r1(1) r'(1) by simp
  moreover have "\<forall>j<length (fixed_bytes r). fixed_bytes r' ! j =
              (if \<exists>i\<in>set (i # is). 8 * i \<le> j \<and> j < window_top bits i div 8
               then le_byte (bv_value m var bits) j else fixed_bytes r ! j)"
    using r1(3,4) r'(4) by auto
  ultimately show ?case using r1(2,3) r'(2,3) by (intro exI [of _ r']) simp
qed

lemma windows_Nil [simp]: "windows s var bits [] r = Inr r"
  by (simp add: windows.simps)

lemma get_model_bv_aligned:
  assumes m: "model s = Some m" and al: "bits mod 8 = 0" and pos: "0 < bits"
  shows "get_model_bv s var bits =
     Inr \<lparr>num_bits = bits, fixed_bytes = map (le_byte (bv_value m var bits)) [0 ..< bits div 8]\<rparr>"
proof -
  let ?octs = "(bits + 63) div 64"
  let ?r = "BitVector bits"
  have len: "length (fixed_bytes ?r) = bits div 8"
    using aligned_len [OF al] by (simp add: BitVector_def)
  have top8: "window_top bits i mod 8 = 0" for i
    using al full_window_aligned [of i] by (simp add: window_top_def min_def)
  have n63: "bits mod 64 \<noteq> 63" using al by (rule aligned_not_63)
  have topB: "window_top bits i div 8 \<le> bits div 8" for i
    by (rule div_le_mono) (simp add: window_top_def)
  have ok: "\<forall>i\<in>set [0 ..< ?octs]. 64 * i < bits \<and> window_top bits i mod 8 = 0 \<and>
               (window_top bits i = bits \<longrightarrow> bits mod 64 \<noteq> 63) \<and>
               window_top bits i div 8 \<le> length (fixed_bytes ?r)"
    using top8 n63 len topB octs_bound by simp
  from windows_prefix [OF m ok, of var "[]"] obtain r' where
    r': "windows s var bits [0 ..< ?octs] ?r = Inr r'"
      "num_bits r' = num_bits ?r" "length (fixed_bytes r') = length (fixed_bytes ?r)"
      "\<forall>j<length (fixed_bytes ?r). fixed_bytes r' ! j =
              (if \<exists>i\<in>set [0 ..< ?octs]. 8 * i \<le> j \<and> j < window_top bits i div 8
               then le_byte (bv_value m var bits) j else fixed_bytes ?r ! j)"
    by auto
  have cover: "\<exists>i\<in>set [0 ..< ?octs]. 8 * i \<le> j \<and> j < window_top bits i div 8" if "j < bits div 8" for j
  proof -
    from byte_in_window [OF that] have "j div 8 < ?octs" "8 * (j div 8) \<le> j"
      "j < window_top bits (j div 8) div 8"
      by (simp_all add: window_top_def lt_div_iff)
    then show ?thesis by (intro bexI [of _ "j div 8"]) simp_all
  qed
  have "fixed_bytes r' = map (le_byte (bv_value m var bits)) [0 ..< bits div 8]"
  proof (rule nth_equalityI)
    show "length (fixed_bytes r') = length (map (le_byte (bv_value m var bits)) [0 ..< bits div 8])"
      using r'(3) len by simp
  next
    fix j assume "j < length (fixed_bytes r')"
    then have j: "j < bits div 8" using r'(3) len by simp
    then show "fixed_bytes r' ! j = map (le_byte (bv_value m var bits)) [0 ..< bits div 8] ! j"
      using r'(4) len cover [OF j] by simp
  qed
  moreover have "num_bits r' = bits" using r'(2) by (simp add: BitVector_def)
  ultimately have "r' = \<lparr>num_bits = bits, fixed_bytes = map (le_byte (bv_value m var bits)) [0 ..< bits div 8]\<rparr>"
    by simp
  with r'(1) pos show ?thesis by (simp add: get_model_bv_def Let_def)
qed

lemma get_model_bv_unaligned:
  assumes m: "model s = Some m" and al: "bits mod 8 \<noteq> 0" and n63: "bits mod 64 \<noteq> 63"
  shows "get_model_bv s var bits = Inl Assertion_failed"
proof -
  let ?octs = "(bits + 63) div 64"
  let ?r = "BitVector bits"
  let ?n = "?octs - 1"
  have pos: "0 < bits" using al by (cases bits) auto
  then have octs: "0 < ?octs" by simp
  then have split: "[0 ..< ?octs] = [0 ..< ?n] @ [?n]"
    by (metis Suc_pred' upt_Suc_append zero_le)
  have len: "length (fixed_bytes ?r) = (bits + 7) div 8" by (simp add: BitVector_def)
  have ok: "\<forall>i\<in>set [0 ..< ?n]. 64 * i < bits \<and> window_top bits i mod 8 = 0 \<and>
               (window_top bits i = bits \<longrightarrow> bits mod 64 \<noteq> 63) \<and>
               window_top bits i div 8 \<le> length (fixed_bytes ?r)"
  proof
    fix i assume "i \<in> set [0 ..< ?n]"
    then have f: "64 * i + 64 \<le> bits" using before_last_window by simp
    then have t: "window_top bits i = 64 * i + 64" by (simp add: window_top_def)
    have "(64 * i + 64) div 8 \<le> (bits + 7) div 8" using f by (rule div8_mono)
    with f t n63 len full_window_aligned [of i]
    show "64 * i < bits \<and> window_top bits i mod 8 = 0 \<and>
               (window_top bits i = bits \<longrightarrow> bits mod 64 \<noteq> 63) \<and>
               window_top bits i div 8 \<le> length (fixed_bytes ?r)"
      by simp
  qed
  from windows_prefix [OF m ok, of var "[?n]"] obtain r' where
    r': "windows s var bits ([0 ..< ?n] @ [?n]) ?r = windows s var bits [?n] r'"
    by blast
  from last_window [OF al n63] have lo: "64 * ?n < bits" and hi: "bits < ?n * 64 + 63" .
  let ?w = "bits - 1 + 1 - ?n * 64"
  have w: "?w \<le> 64" using hi by simp
  let ?xw = "Z3_extract_value (bits - 1) (?n * 64) (bv_value m var bits mod 2 ^ bits)"
  have "?xw < 2 ^ ?w" by (simp add: Z3_extract_value_def)
  from bv2int_range [OF this w]
  have num: "Z3_get_numeral_int64 (Z3_bv2int ?w ?xw True) = Inr (word_of_int (Z3_bv2int ?w ?xw True))"
    by (simp add: Z3_get_numeral_int64_def)
  have "windows s var bits [?n] r' = Inl Assertion_failed"
    using m hi pos al num by (simp add: Let_def windows.simps)
  with r' split pos show ?thesis by (simp add: get_model_bv_def Let_def)
qed

lemma window_byte:
  assumes "j < bits div 8"
  shows "le_byte (window_uint x bits (j div 8)) (j mod 8) = le_byte x j"
proof -
  from assms have b: "8 * j + 8 \<le> bits" by (simp add: lt_div_iff)
  obtain q r where q: "q = j div 8" and r: "r = j mod 8" by simp
  have j: "j = 8 * q + r" "r < 8" by (simp_all add: q r)
  have w: "8 * r + 8 \<le> window_width bits q"
    using b j by (simp add: window_width_def)
  have "le_byte ((x div 2 ^ (64 * q)) mod 2 ^ window_width bits q) r = le_byte x ((64 * q) div 8 + r)"
    using w by (rule le_byte_window) simp
  then show ?thesis
    unfolding q [symmetric] r [symmetric] using j(1) by (simp add: window_uint_def)
qed

lemma window_width_aligned:
  assumes "bits mod 8 = 0"
  shows "window_width bits i mod 8 = 0"
proof -
  from assms obtain b where b: "bits = 8 * b" by (auto elim: dvdE simp: mod_eq_0_iff_dvd)
  have "bits - 64 * i = 8 * (b - 8 * i)" by (simp add: b)
  then have "(bits - 64 * i) mod 8 = 0" by (metis mod_mult_self1_is_0)
  then show ?thesis by (simp add: window_width_def min_def)
qed

text \<open>
  C8. With a model at hand and a positive width \<open>N\<close> that is a multiple of 8,
  \<^verbatim>\<open>get_model_bv\<close>
  returns a bit vector of exactly \<open>N\<close> bits whose byte \<open>j\<close> is byte \<open>j mod 8\<close> of the
  unsigned integer of window \<open>j div 8\<close>: the value is cut into the \<open>ceil(N/64)\<close> windows
  of at most 64 bits, each a whole number of bytes, and the integers are laid out low
  byte first, which makes byte \<open>j\<close> of the result byte \<open>j\<close> of the value. A width that
  is not a multiple of 8 is caught by nothing but the assertion on the last window
  (widths of the form \<open>64 k + 63\<close> aside, which the solver library refuses first).
\<close>

theorem get_model_bv_windows_little_endian:
  assumes "model s = Some m"
  shows "(0 < bits \<and> bits mod 8 = 0 \<longrightarrow>
            get_model_bv s var bits =
              Inr \<lparr>num_bits = bits,
                   fixed_bytes =
                     map (\<lambda>j. le_byte (window_uint (bv_value m var bits) bits (j div 8)) (j mod 8))
                         [0 ..< bits div 8]\<rparr> \<and>
            (\<forall>j<bits div 8.
               j div 8 < (bits + 63) div 64 \<and>
               window_width bits (j div 8) \<le> 64 \<and> window_width bits (j div 8) mod 8 = 0 \<and>
               le_byte (window_uint (bv_value m var bits) bits (j div 8)) (j mod 8) =
                 le_byte (bv_value m var bits) j)) \<and>
         (bits mod 8 \<noteq> 0 \<and> bits mod 64 \<noteq> 63 \<longrightarrow>
            get_model_bv s var bits = Inl Assertion_failed)"
proof (intro conjI impI allI)
  assume "0 < bits \<and> bits mod 8 = 0"
  then have pos: "0 < bits" and al: "bits mod 8 = 0" by simp_all
  have "map (\<lambda>j. le_byte (window_uint (bv_value m var bits) bits (j div 8)) (j mod 8)) [0 ..< bits div 8]
        = map (le_byte (bv_value m var bits)) [0 ..< bits div 8]"
    by (rule map_cong) (simp_all add: window_byte)
  then show "get_model_bv s var bits =
              Inr \<lparr>num_bits = bits,
                   fixed_bytes =
                     map (\<lambda>j. le_byte (window_uint (bv_value m var bits) bits (j div 8)) (j mod 8))
                         [0 ..< bits div 8]\<rparr>"
    using get_model_bv_aligned [OF assms al pos, of var] by simp
next
  fix j assume "0 < bits \<and> bits mod 8 = 0" and j: "j < bits div 8"
  then have al: "bits mod 8 = 0" by simp
  show "j div 8 < (bits + 63) div 64" using byte_in_window(1) [OF j] .
  show "window_width bits (j div 8) \<le> 64" by (simp add: window_width_def)
  show "window_width bits (j div 8) mod 8 = 0" using al by (rule window_width_aligned)
  show "le_byte (window_uint (bv_value m var bits) bits (j div 8)) (j mod 8) =
                 le_byte (bv_value m var bits) j" using j by (rule window_byte)
next
  assume "bits mod 8 \<noteq> 0 \<and> bits mod 64 \<noteq> 63"
  then show "get_model_bv s var bits = Inl Assertion_failed"
    using get_model_bv_unaligned [OF assms] by blast
qed

lemma upt16: "[0 ..< 16] = [0, 1, 2, 3, 4, 5, 6, 7, 8, 9, 10, 11, 12, 13, 14, 15 :: nat]"
  by (simp add: upt_rec)

theorem get_model_bv_windows_little_endian_witness:
  "model (idle\<lparr>model := Some (const_model 18446744073709551874)\<rparr>) = Some (const_model 18446744073709551874) \<and>
   (0 :: nat) < 128 \<and> (128 :: nat) mod 8 = 0 \<and>
   get_model_bv (idle\<lparr>model := Some (const_model 18446744073709551874)\<rparr>) ''v'' 128 =
     Inr \<lparr>num_bits = 128,
          fixed_bytes = [2, 1, 0, 0, 0, 0, 0, 0, 1, 0, 0, 0, 0, 0, 0, 0]\<rparr> \<and>
   (12 :: nat) mod 8 \<noteq> 0 \<and> (12 :: nat) mod 64 \<noteq> 63 \<and>
   get_model_bv (idle\<lparr>model := Some (const_model 18446744073709551874)\<rparr>) ''v'' 12 =
     Inl Assertion_failed"
proof -
  let ?m = "const_model 18446744073709551874"
  let ?s = "idle\<lparr>model := Some ?m\<rparr>"
  have m: "model ?s = Some ?m" by simp
  have v: "bv_value ?m ''v'' 128 = 18446744073709551874" by (simp add: const_model_def)
  have bytes: "map (\<lambda>j. le_byte (window_uint 18446744073709551874 128 (j div 8)) (j mod 8)) [0 ..< 128 div 8]
      = [2, 1, 0, 0, 0, 0, 0, 0, 1, 0, 0, 0, 0, 0, 0, 0]"
    by (simp add: upt16 le_byte_def window_uint_def window_width_def)
  have a: "get_model_bv ?s ''v'' 128 =
     Inr \<lparr>num_bits = 128,
          fixed_bytes = [2, 1, 0, 0, 0, 0, 0, 0, 1, 0, 0, 0, 0, 0, 0, 0]\<rparr>"
    using get_model_bv_windows_little_endian [OF m, of 128 "''v''"] v bytes by simp
  have b: "get_model_bv ?s ''v'' 12 = Inl Assertion_failed"
    using get_model_bv_windows_little_endian [OF m, of 12 "''v''"] by simp
  from m a b show ?thesis by simp
qed

end
